theory Spec2Isabelle
  imports Complex_Main "HOL-Library.Sublist"
begin

section \<open>JavaScript strings and numbers\<close>

text \<open>
  A JavaScript string is a sequence of UTF-16 code units; a code unit is modelled by its
  number. JavaScript numbers are modelled by the reals, so the rounding of floating-point
  arithmetic is left out; \<open>NaN\<close> and the infinities are not values of the model.
\<close>

type_synonym jschar = nat
type_synonym jsstring = "jschar list"

definition str :: "string \<Rightarrow> jsstring" where
  "str s = map of_char s"

text \<open>The characters \<open>String.prototype.trim\<close> strips and the regular expression class
  \<open>\s\<close> matches: WhiteSpace and LineTerminator of ECMAScript.\<close>

definition is_ws :: "jschar \<Rightarrow> bool" where
  "is_ws c = (c = 9 \<or> c = 10 \<or> c = 11 \<or> c = 12 \<or> c = 13 \<or> c = 32 \<or> c = 160
      \<or> c = 5760 \<or> (8192 \<le> c \<and> c \<le> 8202) \<or> c = 8232 \<or> c = 8233 \<or> c = 8239
      \<or> c = 8287 \<or> c = 12288 \<or> c = 65279)"

definition trim :: "jsstring \<Rightarrow> jsstring" where
  "trim s = rev (dropWhile is_ws (rev (dropWhile is_ws s)))"

text \<open>\<open>s.replace(/\s+/g, ' ')\<close>, the whitespace collapse: every maximal run of white space
  becomes one space (code unit 32).\<close>

function collapse_ws :: "jsstring \<Rightarrow> jsstring" where
  "collapse_ws [] = []"
| "collapse_ws (c # cs) =
     (if is_ws c then 32 # collapse_ws (dropWhile is_ws cs) else c # collapse_ws cs)"
  by pat_completeness auto
termination
  by (relation "measure length") (auto simp: less_Suc_eq_le length_dropWhile_le)

text \<open>
  The cleanup of a page's text in \<open>extractAllText\<close>:
  \<^verbatim>\<open>pageText.replace(/\s+/g, ' ').replace(/\n\s+/g, '\n\n').trim()\<close>.
  \<open>replace_nl\<close> is the second replacement: a line feed followed by a run of white space
  becomes two line feeds.
\<close>

function replace_nl :: "jsstring \<Rightarrow> jsstring" where
  "replace_nl [] = []"
| "replace_nl (c # cs) =
     (if c = 10 \<and> cs \<noteq> [] \<and> is_ws (hd cs) then 10 # 10 # replace_nl (dropWhile is_ws cs)
      else c # replace_nl cs)"
  by pat_completeness auto
termination
  by (relation "measure length") (auto simp: less_Suc_eq_le length_dropWhile_le)

definition cleanPageText :: "jsstring \<Rightarrow> jsstring" where
  "cleanPageText pageText = trim (replace_nl (collapse_ws pageText))"

text \<open>\<open>s.substring(0, e)\<close> and \<open>s.substring(b)\<close> for a number argument: the argument is
  truncated to an integer and clamped into \<open>[0, s.length]\<close>.\<close>

definition substring_to :: "jsstring \<Rightarrow> real \<Rightarrow> jsstring" where
  "substring_to s e = take (nat \<lfloor>e\<rfloor>) s"

definition substring_from :: "jsstring \<Rightarrow> real \<Rightarrow> jsstring" where
  "substring_from s b = drop (nat \<lfloor>b\<rfloor>) s"

text \<open>\<open>s.lastIndexOf(pat, pos)\<close>: the largest index \<open>k\<close> at which \<open>pat\<close> occurs in \<open>s\<close>
  with \<open>k\<close> at most \<open>pos\<close> (truncated, clamped into \<open>[0, s.length - pat.length]\<close>), or \<open>-1\<close>.\<close>

primrec lastIndexFrom :: "jsstring \<Rightarrow> jsstring \<Rightarrow> nat \<Rightarrow> int" where
  "lastIndexFrom s pat 0 = (if take (length pat) s = pat then 0 else -1)"
| "lastIndexFrom s pat (Suc k) =
     (if take (length pat) (drop (Suc k) s) = pat then int (Suc k)
      else lastIndexFrom s pat k)"

definition lastIndexOf :: "jsstring \<Rightarrow> jsstring \<Rightarrow> real \<Rightarrow> int" where
  "lastIndexOf s pat pos =
     (if length s < length pat then -1
      else lastIndexFrom s pat (min (nat \<lfloor>pos\<rfloor>) (length s - length pat)))"

text \<open>\<open>blocks.join('\n\n')\<close> and \<open>s.split('\n\n')\<close>; the line feed is code unit 10.\<close>

fun join_nn :: "jsstring list \<Rightarrow> jsstring" where
  "join_nn [] = []"
| "join_nn [x] = x"
| "join_nn (x # y # ys) = x @ [10, 10] @ join_nn (y # ys)"

fun split_from :: "jsstring \<Rightarrow> jsstring \<Rightarrow> jsstring list" where
  "split_from cur [] = [cur]"
| "split_from cur [a] = [cur @ [a]]"
| "split_from cur (a # b # rest) =
     (if a = 10 \<and> b = 10 then cur # split_from [] rest
      else split_from (cur @ [a]) (b # rest))"

definition split_nn :: "jsstring \<Rightarrow> jsstring list" where
  "split_nn s = split_from [] s"

section \<open>Title classification\<close>

text \<open>
  \<open>isTitleText\<close> of \<open>paginateContent\<close>:
  \<^verbatim>\<open>
  const cleaned = text.replace(/[^a-zA-Z{U+00C0}-{U+00FF}]/g, '');
  if (cleaned.length < 3) return false;
  const upperCount = (cleaned.match(/[A-Z{U+00C0}-{U+00DD}]/g) || []).length;
  return upperCount / cleaned.length > 0.7 && text.length < 100;
  \<close>
  where the braces stand for the characters with these code points. The first class is
  the code units 97..122, 65..90 and 192..255; the second is 65..90 and 192..221.
\<close>

definition is_letter :: "jschar \<Rightarrow> bool" where
  "is_letter c = ((97 \<le> c \<and> c \<le> 122) \<or> (65 \<le> c \<and> c \<le> 90) \<or> (192 \<le> c \<and> c \<le> 255))"

definition is_upper :: "jschar \<Rightarrow> bool" where
  "is_upper c = ((65 \<le> c \<and> c \<le> 90) \<or> (192 \<le> c \<and> c \<le> 221))"

definition cleaned :: "jsstring \<Rightarrow> jsstring" where
  "cleaned t = filter is_letter t"

definition upperCount :: "jsstring \<Rightarrow> nat" where
  "upperCount t = length (filter is_upper (cleaned t))"

definition isTitleText :: "jsstring \<Rightarrow> bool" where
  "isTitleText t =
     (if length (cleaned t) < 3 then False
      else real (upperCount t) / real (length (cleaned t)) > 0.7 \<and> length t < 100)"

text \<open>
  The rule in the words of the specification: after stripping non-letter characters, more
  than 70% of the remaining characters are uppercase, and the original text is under 100
  characters. Which characters are letters and which are uppercase is not the code's
  choice, so the two classifications are arguments of the rule.
\<close>

definition spec_isTitle :: "(jschar \<Rightarrow> bool) \<Rightarrow> (jschar \<Rightarrow> bool) \<Rightarrow> jsstring \<Rightarrow> bool" where
  "spec_isTitle letter uppercase t =
     (real (length (filter uppercase (filter letter t))) > 0.7 * real (length (filter letter t))
      \<and> length t < 100)"

text \<open>
  The letters and the uppercase letters of Unicode among the code points up to U+00FF:
  the Basic Latin letters, the feminine and masculine ordinal indicators (170, 186), the
  micro sign (181) and the Latin-1 letters 192..214, 216..246 and 248..255, of which
  192..214 and 216..222 are uppercase. The multiplication sign (215) and the division
  sign (247) are not letters. They classify the texts of the examples, whose characters
  are all below 256.
\<close>

definition latin1_letter :: "jschar \<Rightarrow> bool" where
  "latin1_letter c = ((65 \<le> c \<and> c \<le> 90) \<or> (97 \<le> c \<and> c \<le> 122) \<or> c = 170 \<or> c = 181
      \<or> c = 186 \<or> (192 \<le> c \<and> c \<le> 214) \<or> (216 \<le> c \<and> c \<le> 246) \<or> (248 \<le> c \<and> c \<le> 255))"

definition latin1_upper :: "jschar \<Rightarrow> bool" where
  "latin1_upper c = ((65 \<le> c \<and> c \<le> 90) \<or> (192 \<le> c \<and> c \<le> 214) \<or> (216 \<le> c \<and> c \<le> 222))"

section \<open>Reader state\<close>

record page =
  content :: "jsstring list"
  start :: real
  end_off :: real

text \<open>
  The variables of the module that pagination and the setters use. The two font settings
  are JavaScript numbers; \<open>reader\<close> is the state in which both are real numbers, the
  state pagination is stated for.
\<close>

record 'n reader_vars =
  fontSize :: 'n
  lineHeight :: 'n
  extractedText :: "jsstring list"
  paginatedContent :: "page list"
  totalScreenPages :: nat
  currentScreenPage :: int

type_synonym reader = "real reader_vars"

text \<open>The module's initial values of these variables.\<close>

definition init_reader :: reader where
  "init_reader = \<lparr>fontSize = 18, lineHeight = 1.8, extractedText = [],
     paginatedContent = [], totalScreenPages = 0, currentScreenPage = 1\<rparr>"

text \<open>
  A JavaScript number as the setters see it: a real number, an infinity or \<open>NaN\<close>.
  \<open>Math.min\<close> and \<open>Math.max\<close> return \<open>NaN\<close> when an argument is \<open>NaN\<close>. They
  convert their arguments with ToNumber, so \<open>undefined\<close> and text that is not a numeral
  reach them as \<open>NaN\<close>: the argument of a setter is modelled by its number.
\<close>

datatype jsnum = NaN | NegInf | Number real | PosInf

fun js_min :: "jsnum \<Rightarrow> jsnum \<Rightarrow> jsnum" where
  "js_min NaN y = NaN"
| "js_min x NaN = NaN"
| "js_min NegInf y = NegInf"
| "js_min x NegInf = NegInf"
| "js_min PosInf y = y"
| "js_min x PosInf = x"
| "js_min (Number a) (Number b) = Number (min a b)"

fun js_max :: "jsnum \<Rightarrow> jsnum \<Rightarrow> jsnum" where
  "js_max NaN y = NaN"
| "js_max x NaN = NaN"
| "js_max PosInf y = PosInf"
| "js_max x PosInf = PosInf"
| "js_max NegInf y = y"
| "js_max x NegInf = x"
| "js_max (Number a) (Number b) = Number (max a b)"

text \<open>The initial values once more, with the settings as JavaScript numbers.\<close>

definition init_vars :: "jsnum reader_vars" where
  "init_vars = \<lparr>fontSize = Number 18, lineHeight = Number 1.8, extractedText = [],
     paginatedContent = [], totalScreenPages = 0, currentScreenPage = 1\<rparr>"

text \<open>
  \<^verbatim>\<open>
  function setFontSize(size) {
      fontSize = Math.max(12, Math.min(32, size));
      paginatedContent = [];
      return fontSize;
  }
  \<close>
  and \<open>setLineHeight\<close> likewise with 1.2 and 2.5.
\<close>

definition setFontSize :: "jsnum \<Rightarrow> jsnum reader_vars \<Rightarrow> jsnum \<times> jsnum reader_vars" where
  "setFontSize size' v =
     (let f = js_max (Number 12) (js_min (Number 32) size')
      in (f, v\<lparr>fontSize := f, paginatedContent := []\<rparr>))"

definition setLineHeight :: "jsnum \<Rightarrow> jsnum reader_vars \<Rightarrow> jsnum \<times> jsnum reader_vars" where
  "setLineHeight height v =
     (let h = js_max (Number 1.2) (js_min (Number 2.5) height)
      in (h, v\<lparr>lineHeight := h, paginatedContent := []\<rparr>))"

text \<open>A JavaScript number lies in \<open>[lo, hi]\<close>.\<close>

definition in_range :: "real \<Rightarrow> real \<Rightarrow> jsnum \<Rightarrow> bool" where
  "in_range lo hi n = (case n of Number x \<Rightarrow> lo \<le> x \<and> x \<le> hi | _ \<Rightarrow> False)"

section \<open>Offset locator\<close>

text \<open>The argument of \<open>findPageForOffset\<close>: \<open>undefined\<close>, \<open>null\<close> or a number.\<close>

datatype jsval = Undefined | Null | Num real

text \<open>First loop: the 1-based index of the first page with \<open>start \<le> offset \<le> end\<close>;
  \<open>i\<close> is the loop variable.\<close>

fun containing_from :: "nat \<Rightarrow> page list \<Rightarrow> real \<Rightarrow> int option" where
  "containing_from i [] off = None"
| "containing_from i (p # ps) off =
     (if off \<ge> start p \<and> off \<le> end_off p then Some (int i + 1)
      else containing_from (Suc i) ps off)"

text \<open>Second loop: \<open>bestPage\<close> and \<open>minDiff\<close>, where \<open>None\<close> is the initial \<open>Infinity\<close>.\<close>

fun closest_from :: "nat \<Rightarrow> page list \<Rightarrow> real \<Rightarrow> int \<times> real option \<Rightarrow> int \<times> real option" where
  "closest_from i [] off acc = acc"
| "closest_from i (p # ps) off (bestPage, minDiff) =
     (let diff = \<bar>start p - off\<bar>
      in if (case minDiff of None \<Rightarrow> True | Some m \<Rightarrow> diff < m)
         then closest_from (Suc i) ps off (int i + 1, Some diff)
         else closest_from (Suc i) ps off (bestPage, minDiff))"

definition findPageForOffset :: "page list \<Rightarrow> jsval \<Rightarrow> int" where
  "findPageForOffset pages offset =
     (case offset of
        Undefined \<Rightarrow> -1
      | Null \<Rightarrow> -1
      | Num off \<Rightarrow>
          if off < 0 then -1
          else (case containing_from 0 pages off of
                  Some r \<Rightarrow> r
                | None \<Rightarrow>
                    (case closest_from 0 pages off (-1, None) of
                       (bestPage, minDiff) \<Rightarrow>
                         (case minDiff of
                            None \<Rightarrow> -1
                          | Some m \<Rightarrow> if m < 1000 then bestPage else -1))))"

section \<open>Pagination\<close>

text \<open>The size of the container's parent element, which is all \<open>paginateContent\<close> reads
  from its argument.\<close>

record container =
  clientHeight :: int
  clientWidth :: int

text \<open>
  The budget of \<open>paginateContent\<close>:
  \<^verbatim>\<open>
  const containerHeight = container.parentElement.clientHeight - 80;
  const containerWidth = Math.min(700, container.parentElement.clientWidth - 100);
  const charsPerLine = Math.floor(containerWidth / (fontSize * 0.55));
  const linesPerPage = Math.floor(containerHeight / (fontSize * lineHeight)) - 2;
  const charsPerPage = Math.max(100, charsPerLine * linesPerPage * 0.85);
  \<close>
  The divisors are never zero in the program: \<open>fontSize\<close> stays in \<open>[12, 32]\<close> and
  \<open>lineHeight\<close> in \<open>[1.2, 2.5]\<close>.
\<close>

definition containerHeight :: "container \<Rightarrow> real" where
  "containerHeight c = real_of_int (clientHeight c - 80)"

definition containerWidth :: "container \<Rightarrow> real" where
  "containerWidth c = real_of_int (min 700 (clientWidth c - 100))"

definition charsPerLine :: "container \<Rightarrow> reader \<Rightarrow> int" where
  "charsPerLine c r = \<lfloor>containerWidth c / (fontSize r * 0.55)\<rfloor>"

definition linesPerPage :: "container \<Rightarrow> reader \<Rightarrow> int" where
  "linesPerPage c r = \<lfloor>containerHeight c / (fontSize r * lineHeight r)\<rfloor> - 2"

definition charsPerPage :: "container \<Rightarrow> reader \<Rightarrow> real" where
  "charsPerPage c r = max 100 (real_of_int (charsPerLine c r * linesPerPage c r) * 0.85)"

text \<open>A paragraph: the trimmed text, the offset in the full text at which the untrimmed
  piece begins, and the length of the trimmed text.\<close>

record para =
  para_text :: jsstring
  para_start :: nat
  para_length :: nat

text \<open>The loop over \<open>rawParagraphs\<close>; the state is \<open>paragraphs\<close> and \<open>searchIndex\<close>.\<close>

fun buildParagraphs :: "jsstring list \<Rightarrow> para list \<times> nat \<Rightarrow> para list \<times> nat" where
  "buildParagraphs [] acc = acc"
| "buildParagraphs (p # ps) (paragraphs, searchIndex) =
     (let trimmed = trim p
      in if trimmed = [] then buildParagraphs ps (paragraphs, searchIndex + length p + 2)
         else buildParagraphs ps
                (paragraphs @ [\<lparr>para_text = trimmed, para_start = searchIndex,
                                 para_length = length trimmed\<rparr>],
                 searchIndex + length p + 2))"

text \<open>
  One iteration of the split loop of an oversize paragraph; the state is
  \<open>paginatedContent\<close>, \<open>currentSplitStart\<close> and \<open>remaining\<close>:
  \<^verbatim>\<open>
  let breakPoint = Math.min(remaining.length, charsPerPage);
  if (breakPoint < remaining.length) {
      const sentenceEnd = remaining.lastIndexOf('. ', breakPoint);
      if (sentenceEnd > charsPerPage * 0.5) breakPoint = sentenceEnd + 1;
      else {
          const wordBreak = remaining.lastIndexOf(' ', breakPoint);
          if (wordBreak > charsPerPage * 0.5) breakPoint = wordBreak;
      }
  }
  const chunk = remaining.substring(0, breakPoint).trim();
  const chunkLength = chunk.length;
  if (chunk) {
      paginatedContent.push({ content: [chunk], start: currentSplitStart,
                              end: currentSplitStart + chunkLength });
  }
  currentSplitStart += breakPoint;
  remaining = remaining.substring(breakPoint).trim();
  \<close>
\<close>

definition breakPoint :: "real \<Rightarrow> jsstring \<Rightarrow> real" where
  "breakPoint cpp remaining =
     (let bp = min (real (length remaining)) cpp
      in if bp < real (length remaining) then
           (let sentenceEnd = lastIndexOf remaining [46, 32] bp
            in if real_of_int sentenceEnd > cpp * 0.5 then real_of_int (sentenceEnd + 1)
               else (let wordBreak = lastIndexOf remaining [32] bp
                     in if real_of_int wordBreak > cpp * 0.5 then real_of_int wordBreak
                        else bp))
         else bp)"

definition split_step :: "real \<Rightarrow> page list \<times> real \<times> jsstring \<Rightarrow> page list \<times> real \<times> jsstring" where
  "split_step cpp s =
     (case s of (pages, currentSplitStart, remaining) \<Rightarrow>
        (let bp = breakPoint cpp remaining;
             chunk = trim (substring_to remaining bp);
             chunkLength = length chunk
         in ((if chunk \<noteq> []
              then pages @ [\<lparr>content = [chunk], start = currentSplitStart,
                              end_off = currentSplitStart + real chunkLength\<rparr>]
              else pages),
             currentSplitStart + bp,
             trim (substring_from remaining bp))))"

text \<open>\<open>while (remaining.length > 0) { ... }\<close>. The loop has no other exit, so a run that
  never empties \<open>remaining\<close> does not return: its value is \<open>None\<close>.\<close>

partial_function (option) split_loop ::
    "real \<Rightarrow> page list \<times> real \<times> jsstring \<Rightarrow> (page list \<times> real \<times> jsstring) option" where
  "split_loop cpp s =
     (if snd (snd s) = [] then Some s else split_loop cpp (split_step cpp s))"

text \<open>The accumulator of the loop over the paragraphs.\<close>

record accum =
  acc_pages :: "page list"
  currentPageContent :: "jsstring list"
  currentPageOffsetStart :: real
  currentCharCount :: nat

text \<open>The three places that push the accumulated page with \<open>end: start - 1\<close>. The title
  and the overflow flush also move \<open>currentPageOffsetStart\<close> to the paragraph's start; the
  flush before a split does not.\<close>

definition flush :: "accum \<Rightarrow> real \<Rightarrow> accum" where
  "flush a st =
     a\<lparr>acc_pages := acc_pages a @
          [\<lparr>content = currentPageContent a, start = currentPageOffsetStart a, end_off = st - 1\<rparr>],
       currentPageContent := [], currentCharCount := 0\<rparr>"

definition title_break :: "accum \<Rightarrow> para \<Rightarrow> accum" where
  "title_break a p =
     (if isTitleText (para_text p) \<and> currentPageContent a \<noteq> []
      then (flush a (real (para_start p)))\<lparr>currentPageOffsetStart := real (para_start p)\<rparr>
      else a)"

definition overflow_break :: "real \<Rightarrow> accum \<Rightarrow> para \<Rightarrow> accum" where
  "overflow_break cpp a p =
     (if real (currentCharCount a + para_length p) > cpp \<and> currentPageContent a \<noteq> []
      then (flush a (real (para_start p)))\<lparr>currentPageOffsetStart := real (para_start p)\<rparr>
      else a)"

text \<open>\<open>if (currentPageOffsetStart === -1) currentPageOffsetStart = start;\<close>\<close>

definition set_start :: "accum \<Rightarrow> para \<Rightarrow> accum" where
  "set_start a p =
     (if currentPageOffsetStart a = -1
      then a\<lparr>currentPageOffsetStart := real (para_start p)\<rparr> else a)"

text \<open>The branch \<open>length > charsPerPage\<close>: flush what is pending, run the split loop from
  the paragraph's start and text, and reset \<open>currentPageOffsetStart\<close> to \<open>-1\<close>.\<close>

definition split_para :: "real \<Rightarrow> accum \<Rightarrow> para \<Rightarrow> accum option" where
  "split_para cpp a p =
     (let a' = (if currentPageContent a \<noteq> [] then flush a (real (para_start p)) else a)
      in case split_loop cpp (acc_pages a', real (para_start p), para_text p) of
           None \<Rightarrow> None
         | Some s \<Rightarrow> Some (a'\<lparr>acc_pages := fst s, currentPageOffsetStart := -1\<rparr>))"

text \<open>The other branch: \<open>currentPageContent.push(text); currentCharCount += length + 50;\<close>\<close>

definition append_para :: "accum \<Rightarrow> para \<Rightarrow> accum" where
  "append_para a p =
     a\<lparr>currentPageContent := currentPageContent a @ [para_text p],
       currentCharCount := currentCharCount a + para_length p + 50\<rparr>"

text \<open>The body of \<open>for (const paraObj of paragraphs)\<close>.\<close>

definition para_step :: "real \<Rightarrow> accum \<Rightarrow> para \<Rightarrow> accum option" where
  "para_step cpp a p =
     (let a3 = overflow_break cpp (title_break (set_start a p) p) p
      in if real (para_length p) > cpp then split_para cpp a3 p
         else Some (append_para a3 p))"

fun para_loop :: "real \<Rightarrow> accum \<Rightarrow> para list \<Rightarrow> accum option" where
  "para_loop cpp a [] = Some a"
| "para_loop cpp a (p # ps) =
     (case para_step cpp a p of None \<Rightarrow> None | Some a' \<Rightarrow> para_loop cpp a' ps)"

definition init_accum :: accum where
  "init_accum = \<lparr>acc_pages = [], currentPageContent = [], currentPageOffsetStart = -1,
     currentCharCount = 0\<rparr>"

text \<open>The last page, pushed after the loop with \<open>end: searchIndex\<close>.\<close>

definition last_page :: "accum \<Rightarrow> nat \<Rightarrow> page list" where
  "last_page a searchIndex =
     (if currentPageContent a \<noteq> [] \<and> currentPageOffsetStart a \<noteq> -1
      then acc_pages a @ [\<lparr>content = currentPageContent a, start = currentPageOffsetStart a,
                            end_off = real searchIndex\<rparr>]
      else acc_pages a)"

text \<open>The filter's test, \<open>p.content.join('').length > 5\<close>.\<close>

definition keep_page :: "page \<Rightarrow> bool" where
  "keep_page p = (length (concat (content p)) > 5)"

text \<open>The pages pushed by the loop and after it, before the filter, from the budget and
  the extracted text.\<close>

definition raw_pages :: "real \<Rightarrow> jsstring list \<Rightarrow> page list option" where
  "raw_pages cpp blocks =
     (case buildParagraphs (split_nn (join_nn blocks)) ([], 0) of
        (paragraphs, searchIndex) \<Rightarrow>
          (case para_loop cpp init_accum paragraphs of
             None \<Rightarrow> None
           | Some a \<Rightarrow> Some (last_page a searchIndex)))"

text \<open>The page list \<open>paginateContent\<close> stores:
  \<open>paginatedContent = paginatedContent.filter(p => p.content.join('').length > 5)\<close>.\<close>

definition paginate :: "real \<Rightarrow> jsstring list \<Rightarrow> page list option" where
  "paginate cpp blocks =
     (case raw_pages cpp blocks of
        None \<Rightarrow> None
      | Some pages \<Rightarrow> Some (filter keep_page pages))"

definition paginateContent :: "container \<Rightarrow> reader \<Rightarrow> reader option" where
  "paginateContent c r =
     (case paginate (charsPerPage c r) (extractedText r) of
        None \<Rightarrow> None
      | Some pages \<Rightarrow>
          (let total = length pages;
               cur = (if currentScreenPage r > int total then int total else currentScreenPage r);
               cur' = (if cur < 1 then 1 else cur)
           in Some (r\<lparr>paginatedContent := pages, totalScreenPages := total,
                      currentScreenPage := cur'\<rparr>)))"

section \<open>Notions used to state the properties\<close>

text \<open>A page contains an offset when the offset lies in \<open>[start, end]\<close>; the distance of a
  page from an offset is measured from the page's start.\<close>

definition contains_off :: "page \<Rightarrow> real \<Rightarrow> bool" where
  "contains_off p off = (start p \<le> off \<and> off \<le> end_off p)"

definition dist_off :: "page \<Rightarrow> real \<Rightarrow> real" where
  "dist_off p off = \<bar>start p - off\<bar>"

text \<open>The two outcomes of the closest-page loop on a list of pages: the accumulator is
  kept, or it is replaced at index \<open>k\<close>.\<close>

definition kept :: "page list \<Rightarrow> real \<Rightarrow> real option \<Rightarrow> bool" where
  "kept ps off m = (case m of None \<Rightarrow> ps = [] | Some d \<Rightarrow> \<forall>p\<in>set ps. d \<le> dist_off p off)"

definition replaced_at :: "page list \<Rightarrow> real \<Rightarrow> real option \<Rightarrow> nat \<Rightarrow> bool" where
  "replaced_at ps off m k =
     (k < length ps \<and> (\<forall>j<k. dist_off (ps ! k) off < dist_off (ps ! j) off) \<and>
      (\<forall>p\<in>set ps. dist_off (ps ! k) off \<le> dist_off p off) \<and>
      (case m of None \<Rightarrow> True | Some d \<Rightarrow> dist_off (ps ! k) off < d))"

text \<open>No text after the first of a page's content is a Title; the same for the content
  being accumulated and the pages pushed so far.\<close>

definition no_title_tail :: "jsstring list \<Rightarrow> bool" where
  "no_title_tail ts = (\<forall>t\<in>set (tl ts). \<not> isTitleText t)"

definition title_inv :: "accum \<Rightarrow> bool" where
  "title_inv a = (no_title_tail (currentPageContent a)
                  \<and> (\<forall>pg\<in>set (acc_pages a). no_title_tail (content pg)))"

text \<open>A text is collapsed when its only white space is single spaces; a content text is
  good when it is collapsed, not empty, and neither begins nor ends with white space.\<close>

definition tight :: "jsstring \<Rightarrow> bool" where
  "tight s = ((\<forall>c\<in>set s. is_ws c \<longrightarrow> c = 32) \<and> \<not> sublist [32, 32] s)"

definition good :: "jsstring \<Rightarrow> bool" where
  "good t = (tight t \<and> t \<noteq> [] \<and> \<not> is_ws (hd t) \<and> \<not> is_ws (last t))"

definition good_inv :: "accum \<Rightarrow> bool" where
  "good_inv a = ((\<forall>t\<in>set (currentPageContent a). good t)
                 \<and> (\<forall>pg\<in>set (acc_pages a). \<forall>t\<in>set (content pg). good t))"

text \<open>The filter's test in the words of the specification: the joined content after
  whitespace collapse has more than 5 characters.\<close>

definition spec_keep_page :: "page \<Rightarrow> bool" where
  "spec_keep_page p = (length (collapse_ws (concat (content p))) > 5)"

text \<open>A short first block, whose page the filter drops.\<close>

definition short_blocks :: "jsstring list" where
  "short_blocks = [str ''Intro'', str ''CHAPTER ONE'']"

definition short_reader :: reader where
  "short_reader = init_reader\<lparr>fontSize := 32, extractedText := short_blocks\<rparr>"

text \<open>Example inputs: a phone-sized container, the reader at font size 32, where the
  budget is 158.95, and three blocks of text.\<close>

definition phone :: container where
  "phone = \<lparr>clientHeight = 840, clientWidth = 400\<rparr>"

definition ex_blocks :: "jsstring list" where
  "ex_blocks = [str ''first body text'', str ''CHAPTER ONE'', str ''second body text'']"

definition ex_reader :: reader where
  "ex_reader = init_reader\<lparr>fontSize := 32, extractedText := ex_blocks\<rparr>"

text \<open>Inputs without white space: a block of 1428 characters followed by a block of 20,
  and the pages they give at the budget 158.95 (every chunk is its own page).\<close>

definition unbroken_blocks :: "jsstring list" where
  "unbroken_blocks = [replicate 1428 97, replicate 20 98]"

definition unbroken_reader :: reader where
  "unbroken_reader = init_reader\<lparr>fontSize := 32, extractedText := unbroken_blocks\<rparr>"

definition chunk_page :: "nat \<Rightarrow> jschar \<Rightarrow> real \<Rightarrow> page" where
  "chunk_page n c s = \<lparr>content = [replicate n c], start = s, end_off = s + real n\<rparr>"

definition unbroken_pages :: "page list" where
  "unbroken_pages =
     [chunk_page 158 97 0, chunk_page 158 97 (3179/20), chunk_page 158 97 (3179/10),
      chunk_page 158 97 (9537/20), chunk_page 158 97 (3179/5), chunk_page 158 97 (3179/4),
      chunk_page 158 97 (9537/10), chunk_page 158 97 (22253/20), chunk_page 158 97 (6358/5),
      chunk_page 6 97 (28611/20),
      \<lparr>content = [replicate 20 98], start = 1430, end_off = 1452\<rparr>]"

text \<open>A paragraph of 220 characters whose only sentence end begins at index 158.\<close>

definition sentence_text :: jsstring where
  "sentence_text = replicate 158 97 @ [46, 32] @ replicate 60 98"

definition sentence_reader :: reader where
  "sentence_reader = init_reader\<lparr>fontSize := 32, extractedText := [sentence_text]\<rparr>"

definition sentence_pages :: "page list" where
  "sentence_pages =
     [\<lparr>content = [replicate 158 97 @ [46]], start = 0, end_off = 159\<rparr>,
      \<lparr>content = [replicate 60 98], start = 159, end_off = 219\<rparr>]"




text \<open>A page with the given offsets, for examples.\<close>

definition pg :: "real \<Rightarrow> real \<Rightarrow> page" where
  "pg s e = \<lparr>content = [], start = s, end_off = e\<rparr>"

section \<open>String and loop lemmas\<close>

lemma length_trim_le: "length (trim s) \<le> length s"
proof -
  have "length (trim s) \<le> length (dropWhile is_ws s)"
    unfolding trim_def using length_dropWhile_le[of is_ws "rev (dropWhile is_ws s)"] by simp
  also have "\<dots> \<le> length s" by (rule length_dropWhile_le)
  finally show ?thesis .
qed

lemma lastIndexFrom_le: "lastIndexFrom s pat k \<le> int k"
  by (induction k) auto

lemma lastIndexFrom_ge: "- 1 \<le> lastIndexFrom s pat k"
  by (induction k) auto

lemma lastIndexOf_bounds:
  "- 1 \<le> lastIndexOf s pat pos \<and> lastIndexOf s pat pos \<le> max 0 \<lfloor>pos\<rfloor>
   \<and> lastIndexOf s pat pos + int (length pat) \<le> max (int (length s)) (int (length pat) - 1)"
proof (cases "length s < length pat")
  case True
  then show ?thesis by (simp add: lastIndexOf_def)
next
  case False
  let ?k = "min (nat \<lfloor>pos\<rfloor>) (length s - length pat)"
  have "lastIndexFrom s pat ?k \<le> int ?k" by (rule lastIndexFrom_le)
  moreover have "- 1 \<le> lastIndexFrom s pat ?k" by (rule lastIndexFrom_ge)
  ultimately show ?thesis using False by (simp add: lastIndexOf_def) linarith
qed

lemma breakPoint_ge_1:
  assumes "1 \<le> cpp" "remaining \<noteq> []"
  shows "1 \<le> breakPoint cpp remaining"
proof -
  have len: "1 \<le> real (length remaining)" using assms(2) by (cases remaining) auto
  have i: "\<And>i::int. real_of_int i > cpp * 0.5 \<Longrightarrow> 1 \<le> i"
  proof -
    fix i :: int assume "real_of_int i > cpp * 0.5"
    then have "real_of_int i > 0" using assms(1) by linarith
    then show "1 \<le> i" by linarith
  qed
  show ?thesis
    unfolding breakPoint_def Let_def
    using assms(1) len i by (auto simp: min_def dest!: i)
qed

lemma breakPoint_le_length: "breakPoint cpp remaining \<le> real (length remaining)"
proof -
  have s: "lastIndexOf remaining [46, 32] (min (real (length remaining)) cpp) + 2
           \<le> max (int (length remaining)) 1"
    using lastIndexOf_bounds[of remaining "[46, 32]" "min (real (length remaining)) cpp"] by simp
  have w: "lastIndexOf remaining [32] (min (real (length remaining)) cpp) + 1
           \<le> max (int (length remaining)) 0"
    using lastIndexOf_bounds[of remaining "[32]" "min (real (length remaining)) cpp"] by simp
  show ?thesis
    unfolding breakPoint_def Let_def
    using s w by (auto simp: min_def max_def split: if_splits)
qed

lemma split_step_decreases:
  assumes "1 \<le> cpp" "snd (snd s) \<noteq> []"
  shows "length (snd (snd (split_step cpp s))) < length (snd (snd s))"
proof -
  obtain pages css remaining where s: "s = (pages, css, remaining)" by (cases s) auto
  have "1 \<le> breakPoint cpp remaining" using assms s by (simp add: breakPoint_ge_1)
  then have "1 \<le> nat \<lfloor>breakPoint cpp remaining\<rfloor>" by linarith
  moreover have "0 < length remaining" using assms(2) s by simp
  ultimately have "length (drop (nat \<lfloor>breakPoint cpp remaining\<rfloor>) remaining) < length remaining"
    unfolding length_drop by arith
  moreover have "length (trim (drop (nat \<lfloor>breakPoint cpp remaining\<rfloor>) remaining))
      \<le> length (drop (nat \<lfloor>breakPoint cpp remaining\<rfloor>) remaining)"
    by (rule length_trim_le)
  ultimately show ?thesis
    by (simp add: s split_step_def Let_def substring_from_def)
qed

text \<open>Total correctness of the split loop for an invariant.\<close>

lemma split_loop_rule:
  assumes cpp: "1 \<le> cpp"
    and step: "\<And>s. I s \<Longrightarrow> snd (snd s) \<noteq> [] \<Longrightarrow> I (split_step cpp s)"
    and init: "I s"
  shows "\<exists>s'. split_loop cpp s = Some s' \<and> I s' \<and> snd (snd s') = []"
  using init
proof (induction "length (snd (snd s))" arbitrary: s rule: less_induct)
  case less
  show ?case
  proof (cases "snd (snd s) = []")
    case True
    then show ?thesis using less.prems by (subst split_loop.simps) simp
  next
    case False
    have "\<exists>s'. split_loop cpp (split_step cpp s) = Some s' \<and> I s' \<and> snd (snd s') = []"
      using split_step_decreases[OF cpp False] step[OF less.prems False]
      by (intro less.hyps) auto
    then show ?thesis using False by (subst split_loop.simps) simp
  qed
qed

section \<open>The offset locator\<close>

lemma containing_from_Some:
  "k < length ps \<Longrightarrow> contains_off (ps ! k) off \<Longrightarrow> (\<forall>j<k. \<not> contains_off (ps ! j) off)
   \<Longrightarrow> containing_from i ps off = Some (int (i + k) + 1)"
proof (induction ps arbitrary: i k)
  case Nil
  then show ?case by simp
next
  case (Cons p ps)
  show ?case
  proof (cases k)
    case 0
    with Cons.prems show ?thesis by (simp add: contains_off_def)
  next
    case (Suc k')
    from Cons.prems Suc have "\<not> contains_off p off" by auto
    moreover have "containing_from (Suc i) ps off = Some (int (Suc i + k') + 1)"
      using Cons.prems Suc by (intro Cons.IH) auto
    ultimately show ?thesis using Suc by (simp add: contains_off_def)
  qed
qed

lemma containing_from_None:
  "(\<forall>p\<in>set ps. \<not> contains_off p off) \<Longrightarrow> containing_from i ps off = None"
  by (induction ps arbitrary: i) (auto simp: contains_off_def)

lemma closest_from_char:
  "closest_from i ps off (b, m) = (b, m) \<and> kept ps off m \<or>
   (\<exists>k. replaced_at ps off m k \<and>
        closest_from i ps off (b, m) = (int (i + k) + 1, Some (dist_off (ps ! k) off)))"
proof (induction ps arbitrary: i b m)
  case Nil
  then show ?case by (simp add: kept_def split: option.splits)
next
  case (Cons p ps)
  let ?d = "dist_off p off"
  show ?case
  proof (cases "case m of None \<Rightarrow> True | Some x \<Rightarrow> ?d < x")
    case True
    then have step: "closest_from i (p # ps) off (b, m) = closest_from (Suc i) ps off (int i + 1, Some ?d)"
      by (cases m) (simp_all add: dist_off_def Let_def)
    from Cons.IH[of "Suc i" "int i + 1" "Some ?d"] show ?thesis
    proof (elim disjE conjE exE)
      assume a: "closest_from (Suc i) ps off (int i + 1, Some ?d) = (int i + 1, Some ?d)"
        and k: "kept ps off (Some ?d)"
      have "replaced_at (p # ps) off m 0"
        using k True by (auto simp: replaced_at_def kept_def split: option.splits)
      then show ?thesis using a step by (intro disjI2 exI[of _ 0]) simp
    next
      fix k assume r: "replaced_at ps off (Some ?d) k"
        and a: "closest_from (Suc i) ps off (int i + 1, Some ?d) =
                 (int (Suc i + k) + 1, Some (dist_off (ps ! k) off))"
      have "replaced_at (p # ps) off m (Suc k)"
        using r True by (auto simp: replaced_at_def less_Suc_eq_0_disj split: option.splits)
      then show ?thesis using a step by (intro disjI2 exI[of _ "Suc k"]) simp
    qed
  next
    case False
    then obtain d where m: "m = Some d" and dle: "d \<le> ?d" by (auto split: option.splits)
    have step: "closest_from i (p # ps) off (b, m) = closest_from (Suc i) ps off (b, m)"
      using m dle by (simp add: dist_off_def Let_def)
    from Cons.IH[of "Suc i" b m] show ?thesis
    proof (elim disjE conjE exE)
      assume a: "closest_from (Suc i) ps off (b, m) = (b, m)" and k: "kept ps off m"
      have "kept (p # ps) off m" using k m dle by (simp add: kept_def)
      then show ?thesis using a step by simp
    next
      fix k assume r: "replaced_at ps off m k"
        and a: "closest_from (Suc i) ps off (b, m) =
                 (int (Suc i + k) + 1, Some (dist_off (ps ! k) off))"
      have "replaced_at (p # ps) off m (Suc k)"
        using r m dle by (auto simp: replaced_at_def less_Suc_eq_0_disj)
      then show ?thesis using a step by (intro disjI2 exI[of _ "Suc k"]) simp
    qed
  qed
qed

lemma closest_from_init:
  assumes "ps \<noteq> []"
  obtains k where "k < length ps"
    "\<forall>j<k. dist_off (ps ! k) off < dist_off (ps ! j) off"
    "\<forall>p\<in>set ps. dist_off (ps ! k) off \<le> dist_off p off"
    "closest_from 0 ps off (-1, None) = (int k + 1, Some (dist_off (ps ! k) off))"
  using closest_from_char[of 0 ps off "-1" None] assms
  by (auto simp: kept_def replaced_at_def)

text \<open>
  C5. For a valid anchor offset (a number that is not negative) \<open>findPageForOffset\<close>
  returns the 1-based index of the first page whose \<open>[start, end]\<close> contains the offset.
  When no page contains it, the result is the page whose start is closest to the offset,
  the earliest one among equally close pages, provided its distance is below 1000; when
  every page is at distance 1000 or more (or there is no page) the result is \<open>-1\<close>.
\<close>

theorem findPageForOffset_contract:
  assumes "0 \<le> off"
  shows "(\<forall>i<length pages. contains_off (pages ! i) off \<and> (\<forall>j<i. \<not> contains_off (pages ! j) off)
            \<longrightarrow> findPageForOffset pages (Num off) = int i + 1)
       \<and> ((\<forall>p\<in>set pages. \<not> contains_off p off) \<longrightarrow>
            (\<forall>i<length pages.
                dist_off (pages ! i) off < 1000
                \<and> (\<forall>j<length pages. dist_off (pages ! i) off \<le> dist_off (pages ! j) off)
                \<and> (\<forall>j<i. dist_off (pages ! i) off < dist_off (pages ! j) off)
                \<longrightarrow> findPageForOffset pages (Num off) = int i + 1)
            \<and> ((\<forall>p\<in>set pages. 1000 \<le> dist_off p off)
                \<longrightarrow> findPageForOffset pages (Num off) = -1))"
proof (intro conjI allI impI)
  fix i assume "i < length pages"
    "contains_off (pages ! i) off \<and> (\<forall>j<i. \<not> contains_off (pages ! j) off)"
  then have "containing_from 0 pages off = Some (int (0 + i) + 1)"
    by (intro containing_from_Some) auto
  then show "findPageForOffset pages (Num off) = int i + 1"
    using assms by (simp add: findPageForOffset_def)
next
  fix i
  assume none: "\<forall>p\<in>set pages. \<not> contains_off p off" and i: "i < length pages"
    and best: "dist_off (pages ! i) off < 1000
                \<and> (\<forall>j<length pages. dist_off (pages ! i) off \<le> dist_off (pages ! j) off)
                \<and> (\<forall>j<i. dist_off (pages ! i) off < dist_off (pages ! j) off)"
  from i have ne: "pages \<noteq> []" by auto
  from closest_from_init[OF ne, of off] obtain k where k: "k < length pages"
    "\<forall>j<k. dist_off (pages ! k) off < dist_off (pages ! j) off"
    "\<forall>p\<in>set pages. dist_off (pages ! k) off \<le> dist_off p off"
    "closest_from 0 pages off (-1, None) = (int k + 1, Some (dist_off (pages ! k) off))"
    by blast
  have eq: "dist_off (pages ! k) off = dist_off (pages ! i) off"
    using k(1,3) best i by (meson nth_mem order_antisym)
  have "k = i"
  proof (rule ccontr)
    assume "k \<noteq> i"
    then consider "k < i" | "i < k" by linarith
    then show False
    proof cases
      case 1 then show ?thesis using best eq by auto
    next
      case 2 then show ?thesis using k(2) eq by auto
    qed
  qed
  then show "findPageForOffset pages (Num off) = int i + 1"
    using assms k(4) best containing_from_None[OF none, of 0]
    by (simp add: findPageForOffset_def)
next
  assume none: "\<forall>p\<in>set pages. \<not> contains_off p off"
    and far: "\<forall>p\<in>set pages. 1000 \<le> dist_off p off"
  show "findPageForOffset pages (Num off) = -1"
  proof (cases "pages = []")
    case True
    then show ?thesis using assms by (simp add: findPageForOffset_def)
  next
    case False
    from closest_from_init[OF False, of off] obtain k where k: "k < length pages"
      "closest_from 0 pages off (-1, None) = (int k + 1, Some (dist_off (pages ! k) off))"
      by blast
    have "1000 \<le> dist_off (pages ! k) off" using far k(1) by simp
    then show ?thesis
      using assms k(2) containing_from_None[OF none, of 0]
      by (simp add: findPageForOffset_def)
  qed
qed

theorem findPageForOffset_contract_witness:
  "findPageForOffset [pg 0 10, pg 20 30, pg 25 40] (Num 27) = 2
   \<and> findPageForOffset [pg 0 10, pg 20 30] (Num 15) = 2
   \<and> findPageForOffset [pg 0 10, pg 20 30] (Num 5000) = -1"
  using findPageForOffset_contract[of 27 "[pg 0 10, pg 20 30, pg 25 40]"]
    findPageForOffset_contract[of 15 "[pg 0 10, pg 20 30]"]
    findPageForOffset_contract[of 5000 "[pg 0 10, pg 20 30]"]
  by (simp add: pg_def contains_off_def dist_off_def All_less_Suc2 nth_Cons')

section \<open>Termination and the budget floor\<close>

lemma split_loop_total:
  assumes "1 \<le> cpp"
  shows "\<exists>s'. split_loop cpp s = Some s'"
  using split_loop_rule[OF assms, of "\<lambda>_. True" s] by auto

lemma split_para_total:
  assumes "1 \<le> cpp"
  shows "\<exists>a'. split_para cpp a p = Some a'"
proof -
  let ?a = "if currentPageContent a \<noteq> [] then flush a (real (para_start p)) else a"
  obtain s where "split_loop cpp (acc_pages ?a, real (para_start p), para_text p) = Some s"
    using split_loop_total[OF assms] by blast
  then show ?thesis by (simp add: split_para_def Let_def)
qed

lemma para_step_total:
  assumes "1 \<le> cpp"
  shows "\<exists>a'. para_step cpp a p = Some a'"
  using split_para_total[OF assms] by (simp add: para_step_def Let_def)

lemma para_loop_total:
  assumes "1 \<le> cpp"
  shows "\<exists>a'. para_loop cpp a ps = Some a'"
proof (induction ps arbitrary: a)
  case Nil
  show ?case by simp
next
  case (Cons p ps)
  obtain a1 where "para_step cpp a p = Some a1" using para_step_total[OF assms] by blast
  then show ?case using Cons.IH[of a1] by simp
qed

lemma raw_pages_total:
  assumes "1 \<le> cpp"
  shows "\<exists>pages. raw_pages cpp blocks = Some pages"
proof -
  obtain paragraphs searchIndex
    where b: "buildParagraphs (split_nn (join_nn blocks)) ([], 0) = (paragraphs, searchIndex)"
    by (cases "buildParagraphs (split_nn (join_nn blocks)) ([], 0)") auto
  obtain a where "para_loop cpp init_accum paragraphs = Some a"
    using para_loop_total[OF assms] by blast
  then show ?thesis using b by (simp add: raw_pages_def)
qed

lemma paginate_total:
  assumes "1 \<le> cpp"
  shows "\<exists>pages. paginate cpp blocks = Some pages"
  using raw_pages_total[OF assms, of blocks] by (auto simp: paginate_def)

lemma charsPerPage_ge_100: "100 \<le> charsPerPage c r"
  by (simp add: charsPerPage_def)


text \<open>Without the floor the loop need not end: with a budget of 0, as the product of the
  line and row counts can be, a trimmed non-empty remainder is never shortened.\<close>

lemma split_step_budget_0:
  assumes "remaining \<noteq> []" "trim remaining = remaining"
  shows "split_step 0 (pages, css, remaining) = (pages, css, remaining)"
proof -
  have s: "lastIndexOf remaining [46, 32] 0 \<le> 0"
    using lastIndexOf_bounds[of remaining "[46, 32]" 0] by simp
  have w: "lastIndexOf remaining [32] 0 \<le> 0"
    using lastIndexOf_bounds[of remaining "[32]" 0] by simp
  have "breakPoint 0 remaining = 0"
    using assms(1) s w by (simp add: breakPoint_def Let_def)
  then show ?thesis
    using assms(2) by (simp add: split_step_def substring_to_def substring_from_def trim_def)
qed

lemma split_loop_budget_0:
  assumes "remaining \<noteq> []" "trim remaining = remaining"
  shows "split_loop 0 (pages, css, remaining) = None"
proof -
  have stuck: "\<not> (cpp = 0 \<and> snd (snd s) \<noteq> [] \<and> trim (snd (snd s)) = snd (snd s))"
    if "split_loop cpp s = Some y" for cpp s y
  proof (rule split_loop.raw_induct[where
        P = "\<lambda>cpp s y. \<not> (cpp = 0 \<and> snd (snd s) \<noteq> [] \<and> trim (snd (snd s)) = snd (snd s))",
        OF _ that])
    fix f :: "real \<Rightarrow> page list \<times> real \<times> jsstring \<Rightarrow> (page list \<times> real \<times> jsstring) option"
    fix cpp s y
    assume IH: "\<And>c b y. f c b = Some y \<Longrightarrow>
                  \<not> (c = 0 \<and> snd (snd b) \<noteq> [] \<and> trim (snd (snd b)) = snd (snd b))"
      and eq: "(if snd (snd s) = [] then Some s else f cpp (split_step cpp s)) = Some y"
    show "\<not> (cpp = 0 \<and> snd (snd s) \<noteq> [] \<and> trim (snd (snd s)) = snd (snd s))"
    proof
      assume a: "cpp = 0 \<and> snd (snd s) \<noteq> [] \<and> trim (snd (snd s)) = snd (snd s)"
      obtain pages css remaining where s: "s = (pages, css, remaining)" by (cases s) auto
      have "split_step 0 s = s" using a s split_step_budget_0 by simp
      then have "f 0 s = Some y" using eq a by simp
      from IH[OF this] a show False by simp
    qed
  qed
  show ?thesis
  proof (cases "split_loop 0 (pages, css, remaining)")
    case None
    then show ?thesis .
  next
    case (Some y)
    from stuck[OF this] assms show ?thesis by simp
  qed
qed


section \<open>The font-size setter and invalid anchors\<close>

lemma setFontSize_not_NaN:
  assumes "s \<noteq> NaN"
  shows "in_range 12 32 (fst (setFontSize s v))
         \<and> fontSize (snd (setFontSize s v)) = fst (setFontSize s v)"
  using assms by (cases s) (simp_all add: setFontSize_def in_range_def Let_def)

lemma setFontSize_Number:
  "fst (setFontSize (Number s) v) = Number (max 12 (min 32 s))"
  by (simp add: setFontSize_def Let_def)

text \<open>
  C9 at a failing input. From the initial state, where the font size is 18,
  \<open>setFontSize(NaN)\<close> stores and returns \<open>NaN\<close>, which is not in \<open>[12, 32]\<close>: the clamp
  by \<open>Math.max\<close> and \<open>Math.min\<close> lets \<open>NaN\<close> through. (For every other number the
  stored value is in \<open>[12, 32]\<close>.)
\<close>

theorem setFontSize_stores_NaN:
  "fontSize init_vars = Number 18
   \<and> setFontSize NaN init_vars = (NaN, init_vars\<lparr>fontSize := NaN, paginatedContent := []\<rparr>)
   \<and> fontSize (snd (setFontSize NaN init_vars)) = NaN
   \<and> \<not> in_range 12 32 (fontSize (snd (setFontSize NaN init_vars)))"
  by (simp add: setFontSize_def init_vars_def in_range_def Let_def)

text \<open>
  C10. For every page list, \<open>findPageForOffset\<close> returns \<open>-1\<close> when the offset is
  \<open>undefined\<close>, \<open>null\<close> or a negative number; the result does not depend on the pages.
\<close>

theorem findPageForOffset_invalid:
  "findPageForOffset pages Undefined = -1
   \<and> findPageForOffset pages Null = -1
   \<and> (off < 0 \<longrightarrow> findPageForOffset pages (Num off) = -1)"
  by (simp add: findPageForOffset_def)

theorem findPageForOffset_invalid_witness:
  "findPageForOffset [pg 0 10, pg (-8) 30] Undefined = -1
   \<and> findPageForOffset [pg 0 10, pg (-8) 30] Null = -1
   \<and> findPageForOffset [pg 0 10, pg (-8) 30] (Num (-3)) = -1"
  using findPageForOffset_invalid[of "[pg 0 10, pg (-8) 30]" "-3"] by simp

section \<open>Title classification\<close>

lemma ratio_gt_07:
  assumes "0 < n"
  shows "(real u / real n > 0.7) = (real u > 0.7 * real n)"
  using assms by (simp add: field_simps)

lemma cleaned_agree:
  assumes "\<forall>c\<in>set t. letter c = is_letter c"
  shows "filter letter t = cleaned t"
  unfolding cleaned_def using assms by (intro filter_cong) simp_all

lemma upperCount_agree:
  assumes "\<forall>c\<in>set t. letter c = is_letter c"
    "\<forall>c\<in>set t. letter c \<longrightarrow> uppercase c = is_upper c"
  shows "length (filter uppercase (filter letter t)) = upperCount t"
proof -
  have "filter uppercase (filter letter t) = filter is_upper (filter letter t)"
    using assms(2) by (intro filter_cong) simp_all
  then show ?thesis using cleaned_agree[OF assms(1)] by (simp add: upperCount_def)
qed

text \<open>
  C6, amended. Take a text on whose characters the code's two classes agree with the
  letters and the uppercase letters. It is a Title exactly when at least three characters
  remain after stripping the non-letter characters, more than 70% of the remaining
  characters are uppercase, and the text is under 100 characters. The rule of the
  specification lacks the three-letter minimum.
\<close>

theorem isTitleText_rule:
  assumes "\<forall>c\<in>set t. letter c = is_letter c"
    and "\<forall>c\<in>set t. letter c \<longrightarrow> uppercase c = is_upper c"
  shows "isTitleText t = (3 \<le> length (filter letter t) \<and> spec_isTitle letter uppercase t)"
proof -
  have c: "filter letter t = cleaned t" using assms(1) by (rule cleaned_agree)
  have u: "length (filter uppercase (filter letter t)) = upperCount t"
    using assms by (rule upperCount_agree)
  show ?thesis
  proof (cases "length (cleaned t) < 3")
    case True
    then show ?thesis by (simp add: isTitleText_def c)
  next
    case False
    then have "0 < length (cleaned t)" by linarith
    from ratio_gt_07[OF this, of "upperCount t"] False show ?thesis
      unfolding spec_isTitle_def u unfolding c by (simp add: isTitleText_def)
  qed
qed

theorem isTitleText_rule_witness:
  "isTitleText (str ''CHAPTER ONE'')
   \<and> spec_isTitle latin1_letter latin1_upper (str ''CHAPTER ONE'')
   \<and> \<not> isTitleText (str ''Chapter one'')
   \<and> \<not> spec_isTitle latin1_letter latin1_upper (str ''Chapter one'')"
  using isTitleText_rule[of "str ''CHAPTER ONE''" latin1_letter latin1_upper]
    isTitleText_rule[of "str ''Chapter one''" latin1_letter latin1_upper]
  by (simp add: spec_isTitle_def str_def latin1_letter_def latin1_upper_def
      is_letter_def is_upper_def)

text \<open>
  C6 as stated fails. The paragraph \<open>"AB 1234567890"\<close> has two letters, both uppercase,
  and 13 characters, so the rule of the specification makes it a Title, and
  \<open>isTitleText\<close> returns false for it.
\<close>

theorem isTitleText_two_letters:
  "spec_isTitle latin1_letter latin1_upper (str ''AB 1234567890'')
   \<and> \<not> isTitleText (str ''AB 1234567890'')"
  by (simp add: isTitleText_def spec_isTitle_def str_def cleaned_def upperCount_def
      is_letter_def is_upper_def latin1_letter_def latin1_upper_def)

section \<open>A worked example\<close>

lemma length_str: "length (str s) = length s"
  by (simp add: str_def)

lemma phone_budget:
  assumes "fontSize r = 32" "lineHeight r = 1.8"
  shows "charsPerPage phone r = 3179/20"
  by (simp add: phone_def charsPerPage_def charsPerLine_def linesPerPage_def
      containerWidth_def containerHeight_def assms)

lemma ex_budget: "charsPerPage phone ex_reader = 3179/20"
  by (rule phone_budget) (simp_all add: ex_reader_def init_reader_def)

lemma ex_split: "split_nn (join_nn ex_blocks) = ex_blocks"
  by (simp add: split_nn_def str_def ex_blocks_def)

lemma ex_trim: "trim (str ''first body text'') = str ''first body text''"
  "trim (str ''CHAPTER ONE'') = str ''CHAPTER ONE''"
  "trim (str ''second body text'') = str ''second body text''"
  by (simp_all add: str_def trim_def is_ws_def)

lemma ex_nonempty: "str ''first body text'' \<noteq> []" "str ''CHAPTER ONE'' \<noteq> []"
  "str ''second body text'' \<noteq> []"
  by (simp_all add: str_def)

lemma ex_paras: "buildParagraphs ex_blocks ([], 0) =
   ([\<lparr>para_text = str ''first body text'', para_start = 0, para_length = 15\<rparr>,
     \<lparr>para_text = str ''CHAPTER ONE'', para_start = 17, para_length = 11\<rparr>,
     \<lparr>para_text = str ''second body text'', para_start = 30, para_length = 16\<rparr>], 48)"
  by (simp add: ex_blocks_def ex_trim ex_nonempty length_str)

lemma ex_titles: "\<not> isTitleText (str ''first body text'')" "isTitleText (str ''CHAPTER ONE'')"
   "\<not> isTitleText (str ''second body text'')"
  by (simp_all add: str_def isTitleText_def cleaned_def upperCount_def is_letter_def is_upper_def)

lemma ex_step1: "para_step (3179/20) init_accum \<lparr>para_text = str ''first body text'', para_start = 0, para_length = 15\<rparr>
   = Some \<lparr>acc_pages = [], currentPageContent = [str ''first body text''], currentPageOffsetStart = 0, currentCharCount = 65\<rparr>"
  by (simp add: init_accum_def para_step_def set_start_def title_break_def overflow_break_def append_para_def ex_titles)

lemma ex_step2: "para_step (3179/20) \<lparr>acc_pages = [], currentPageContent = [str ''first body text''], currentPageOffsetStart = 0, currentCharCount = 65\<rparr>
    \<lparr>para_text = str ''CHAPTER ONE'', para_start = 17, para_length = 11\<rparr>
   = Some \<lparr>acc_pages = [\<lparr>content = [str ''first body text''], start = 0, end_off = 16\<rparr>],
       currentPageContent = [str ''CHAPTER ONE''], currentPageOffsetStart = 17, currentCharCount = 61\<rparr>"
  by (simp add: para_step_def set_start_def title_break_def overflow_break_def append_para_def flush_def ex_titles)

lemma ex_step3: "para_step (3179/20) \<lparr>acc_pages = [\<lparr>content = [str ''first body text''], start = 0, end_off = 16\<rparr>],
       currentPageContent = [str ''CHAPTER ONE''], currentPageOffsetStart = 17, currentCharCount = 61\<rparr>
    \<lparr>para_text = str ''second body text'', para_start = 30, para_length = 16\<rparr>
   = Some \<lparr>acc_pages = [\<lparr>content = [str ''first body text''], start = 0, end_off = 16\<rparr>],
       currentPageContent = [str ''CHAPTER ONE'', str ''second body text''], currentPageOffsetStart = 17, currentCharCount = 127\<rparr>"
  by (simp add: para_step_def set_start_def title_break_def overflow_break_def append_para_def flush_def ex_titles)

lemma ex_pages: "paginate (3179/20) ex_blocks =
   Some [\<lparr>content = [str ''first body text''], start = 0, end_off = 16\<rparr>,
         \<lparr>content = [str ''CHAPTER ONE'', str ''second body text''], start = 17, end_off = 48\<rparr>]"
  by (simp add: paginate_def raw_pages_def ex_split ex_paras ex_step1 ex_step2 ex_step3
        last_page_def keep_page_def length_str)

section \<open>Title isolation\<close>

lemma no_title_tail_Nil: "no_title_tail []"
  by (simp add: no_title_tail_def)

lemma no_title_tail_single: "no_title_tail [t]"
  by (simp add: no_title_tail_def)

lemma flush_title_inv: "title_inv a \<Longrightarrow> title_inv (flush a st)"
  by (simp add: title_inv_def flush_def no_title_tail_Nil)

lemma set_start_title_inv: "title_inv a \<Longrightarrow> title_inv (set_start a p)"
  by (simp add: title_inv_def set_start_def)

lemma title_break_title_inv: "title_inv a \<Longrightarrow> title_inv (title_break a p)"
  using flush_title_inv[of a "real (para_start p)"]
  by (simp add: title_break_def title_inv_def)

lemma overflow_break_title_inv: "title_inv a \<Longrightarrow> title_inv (overflow_break cpp a p)"
  using flush_title_inv[of a "real (para_start p)"]
  by (simp add: overflow_break_def title_inv_def)

lemma title_break_content:
  "isTitleText (para_text p) \<Longrightarrow> currentPageContent (title_break a p) = []"
  by (simp add: title_break_def flush_def)

lemma overflow_break_content:
  "currentPageContent a = [] \<Longrightarrow> currentPageContent (overflow_break cpp a p) = []"
  by (simp add: overflow_break_def)

lemma append_para_title_inv:
  assumes "title_inv a" "isTitleText (para_text p) \<longrightarrow> currentPageContent a = []"
  shows "title_inv (append_para a p)"
proof (cases "currentPageContent a")
  case Nil
  then show ?thesis using assms(1) by (simp add: title_inv_def append_para_def no_title_tail_def)
next
  case (Cons t ts)
  then show ?thesis using assms by (simp add: title_inv_def append_para_def no_title_tail_def)
qed

lemma split_step_title_pages:
  assumes "\<forall>pg\<in>set (fst s). no_title_tail (content pg)"
  shows "\<forall>pg\<in>set (fst (split_step cpp s)). no_title_tail (content pg)"
proof -
  obtain pages css remaining where s: "s = (pages, css, remaining)" by (cases s) auto
  show ?thesis using assms
    by (auto simp: s split_step_def Let_def no_title_tail_single)
qed

lemma split_para_title_inv:
  assumes "1 \<le> cpp" "title_inv a"
  shows "\<exists>a'. split_para cpp a p = Some a' \<and> title_inv a'"
proof -
  let ?a = "if currentPageContent a \<noteq> [] then flush a (real (para_start p)) else a"
  have inv: "title_inv ?a" using assms(2) flush_title_inv by simp
  then have "\<forall>pg\<in>set (fst (acc_pages ?a, real (para_start p), para_text p)).
               no_title_tail (content pg)"
    by (simp add: title_inv_def)
  from split_loop_rule[where I = "\<lambda>s. \<forall>pg\<in>set (fst s). no_title_tail (content pg)",
      OF assms(1) split_step_title_pages this]
  obtain s' where s': "split_loop cpp (acc_pages ?a, real (para_start p), para_text p) = Some s'"
    "\<forall>pg\<in>set (fst s'). no_title_tail (content pg)" by blast
  have "split_para cpp a p = Some (?a\<lparr>acc_pages := fst s', currentPageOffsetStart := -1\<rparr>)"
    using s'(1) by (simp add: split_para_def Let_def)
  moreover have "title_inv (?a\<lparr>acc_pages := fst s', currentPageOffsetStart := -1\<rparr>)"
    using inv s'(2) by (simp add: title_inv_def)
  ultimately show ?thesis by blast
qed

lemma para_step_title_inv:
  assumes "1 \<le> cpp" "title_inv a"
  shows "\<exists>a'. para_step cpp a p = Some a' \<and> title_inv a'"
proof -
  let ?a3 = "overflow_break cpp (title_break (set_start a p) p) p"
  have inv: "title_inv ?a3"
    using assms(2) by (intro overflow_break_title_inv title_break_title_inv set_start_title_inv)
  have "isTitleText (para_text p) \<longrightarrow> currentPageContent ?a3 = []"
    by (simp add: title_break_content overflow_break_content)
  then have "title_inv (append_para ?a3 p)" using inv append_para_title_inv by blast
  then show ?thesis
    using split_para_title_inv[OF assms(1) inv, of p] by (simp add: para_step_def Let_def)
qed

lemma para_loop_title_inv:
  assumes "1 \<le> cpp" "title_inv a"
  shows "\<exists>a'. para_loop cpp a ps = Some a' \<and> title_inv a'"
  using assms(2)
proof (induction ps arbitrary: a)
  case Nil
  then show ?case by simp
next
  case (Cons p ps)
  obtain a1 where a1: "para_step cpp a p = Some a1" "title_inv a1"
    using para_step_title_inv[OF assms(1) Cons.prems] by blast
  from Cons.IH[OF a1(2)] a1(1) show ?case by simp
qed

lemma raw_pages_title:
  assumes "1 \<le> cpp"
  shows "\<exists>pages. raw_pages cpp blocks = Some pages
            \<and> (\<forall>pg\<in>set pages. no_title_tail (content pg))"
proof -
  obtain paragraphs searchIndex
    where b: "buildParagraphs (split_nn (join_nn blocks)) ([], 0) = (paragraphs, searchIndex)"
    by (cases "buildParagraphs (split_nn (join_nn blocks)) ([], 0)") auto
  have "title_inv init_accum" by (simp add: title_inv_def init_accum_def no_title_tail_Nil)
  then obtain a where a: "para_loop cpp init_accum paragraphs = Some a" "title_inv a"
    using para_loop_title_inv[OF assms] by blast
  have "\<forall>pg\<in>set (last_page a searchIndex). no_title_tail (content pg)"
    using a(2) by (simp add: last_page_def title_inv_def)
  then show ?thesis using a(1) b by (simp add: raw_pages_def)
qed

lemma title_step:
  assumes "100 \<le> cpp" "isTitleText (para_text p)" "para_length p = length (para_text p)"
    "currentPageContent a \<noteq> []"
  shows "para_step cpp a p =
     Some \<lparr>acc_pages = acc_pages a @
              [\<lparr>content = currentPageContent a,
                start = currentPageOffsetStart (set_start a p),
                end_off = real (para_start p) - 1\<rparr>],
           currentPageContent = [para_text p],
           currentPageOffsetStart = real (para_start p),
           currentCharCount = para_length p + 50\<rparr>"
proof -
  have short: "length (para_text p) < 100"
    using assms(2) by (simp add: isTitleText_def split: if_splits)
  then have fits: "\<not> real (para_length p) > cpp" using assms(1,3) by simp
  have c: "currentPageContent (set_start a p) \<noteq> []" using assms(4) by (simp add: set_start_def)
  let ?b = "title_break (set_start a p) p"
  have b: "?b = \<lparr>acc_pages = acc_pages a @
              [\<lparr>content = currentPageContent a,
                start = currentPageOffsetStart (set_start a p),
                end_off = real (para_start p) - 1\<rparr>],
           currentPageContent = [],
           currentPageOffsetStart = real (para_start p),
           currentCharCount = 0\<rparr>"
    using assms(2) c by (simp add: title_break_def flush_def set_start_def)
  have "overflow_break cpp ?b p = ?b" by (simp add: overflow_break_def b)
  then show ?thesis using fits b by (simp add: para_step_def Let_def append_para_def)
qed

text \<open>
  C1. In the page list \<open>paginateContent\<close> stores, no text after the first of a page's
  content is a Title. In the loop, a Title paragraph that meets a non-empty accumulator
  makes the step push the accumulated content as a page that ends at the paragraph's
  start minus 1, and leaves a new accumulator that starts at the paragraph's start and
  holds the Title alone.
\<close>

theorem title_isolation:
  "(\<exists>r'. paginateContent c r = Some r'
       \<and> (\<forall>pg\<in>set (paginatedContent r'). \<forall>t\<in>set (tl (content pg)). \<not> isTitleText t))
   \<and> (isTitleText (para_text p) \<and> para_length p = length (para_text p)
        \<and> currentPageContent a \<noteq> [] \<longrightarrow>
      para_step (charsPerPage c r) a p =
        Some \<lparr>acc_pages = acc_pages a @
                 [\<lparr>content = currentPageContent a,
                   start = currentPageOffsetStart (set_start a p),
                   end_off = real (para_start p) - 1\<rparr>],
              currentPageContent = [para_text p],
              currentPageOffsetStart = real (para_start p),
              currentCharCount = para_length p + 50\<rparr>)"
proof -
  have cpp: "100 \<le> charsPerPage c r" by (rule charsPerPage_ge_100)
  then have "1 \<le> charsPerPage c r" by linarith
  from raw_pages_title[OF this, of "extractedText r"]
  obtain pages where pages: "raw_pages (charsPerPage c r) (extractedText r) = Some pages"
    "\<forall>pg\<in>set pages. no_title_tail (content pg)" by blast
  have "\<exists>r'. paginateContent c r = Some r'
       \<and> (\<forall>pg\<in>set (paginatedContent r'). \<forall>t\<in>set (tl (content pg)). \<not> isTitleText t)"
    using pages by (auto simp: paginateContent_def paginate_def Let_def no_title_tail_def)
  then show ?thesis using title_step[OF cpp] by blast
qed

theorem title_isolation_witness:
  "(\<exists>r'. paginateContent phone ex_reader = Some r'
       \<and> (\<forall>pg\<in>set (paginatedContent r'). \<forall>t\<in>set (tl (content pg)). \<not> isTitleText t))
   \<and> para_step (charsPerPage phone ex_reader)
        \<lparr>acc_pages = [], currentPageContent = [str ''first body text''],
           currentPageOffsetStart = 0, currentCharCount = 65\<rparr>
        \<lparr>para_text = str ''CHAPTER ONE'', para_start = 17, para_length = 11\<rparr>
      = Some \<lparr>acc_pages = [\<lparr>content = [str ''first body text''], start = 0, end_off = 16\<rparr>],
               currentPageContent = [str ''CHAPTER ONE''], currentPageOffsetStart = 17,
               currentCharCount = 61\<rparr>"
  using title_isolation[of phone ex_reader
      "\<lparr>para_text = str ''CHAPTER ONE'', para_start = 17, para_length = 11\<rparr>"
      "\<lparr>acc_pages = [], currentPageContent = [str ''first body text''],
         currentPageOffsetStart = 0, currentCharCount = 65\<rparr>"]
  by (simp add: ex_titles length_str set_start_def)

section \<open>Determinism\<close>

text \<open>
  C8. Two runs of \<open>paginateContent\<close> on the same extracted text with the same derived
  budget both return and store the same page list and the same page count, whatever the
  rest of the two reader states (an earlier page list, the current page) is.
\<close>

theorem paginateContent_deterministic:
  assumes "extractedText r1 = extractedText r2" "charsPerPage c1 r1 = charsPerPage c2 r2"
  shows "\<exists>r1' r2'. paginateContent c1 r1 = Some r1' \<and> paginateContent c2 r2 = Some r2'
           \<and> paginatedContent r1' = paginatedContent r2'
           \<and> totalScreenPages r1' = totalScreenPages r2'"
proof -
  have "1 \<le> charsPerPage c1 r1" using charsPerPage_ge_100[of c1 r1] by linarith
  then obtain pages where "paginate (charsPerPage c1 r1) (extractedText r1) = Some pages"
    using paginate_total by blast
  then show ?thesis using assms by (simp add: paginateContent_def Let_def)
qed

theorem paginateContent_deterministic_witness:
  "\<exists>r1' r2'. paginateContent phone ex_reader = Some r1'
      \<and> paginateContent phone
            (ex_reader\<lparr>paginatedContent := [pg 0 1], currentScreenPage := 7\<rparr>) = Some r2'
      \<and> paginatedContent r1' = paginatedContent r2'
      \<and> totalScreenPages r1' = totalScreenPages r2'"
  using paginateContent_deterministic[of ex_reader
      "ex_reader\<lparr>paginatedContent := [pg 0 1], currentScreenPage := 7\<rparr>" phone phone]
  by (simp add: charsPerPage_def charsPerLine_def linesPerPage_def)

section \<open>Splitting and joining blocks without line feeds\<close>

lemma split_from_no_nl:
  "10 \<notin> set x \<Longrightarrow> split_from cur x = [cur @ x]"
proof (induction cur x rule: split_from.induct)
  case (1 cur)
  show ?case by simp
next
  case (2 cur a)
  show ?case by simp
next
  case (3 cur a b rest)
  then show ?case by simp
qed

lemma split_from_block:
  "10 \<notin> set x \<Longrightarrow> split_from cur (x @ [10, 10] @ rest) = (cur @ x) # split_from [] rest"
proof (induction x arbitrary: cur)
  case Nil
  show ?case by simp
next
  case (Cons a x)
  have a: "a \<noteq> 10" using Cons.prems by auto
  obtain b rest' where r: "x @ [10, 10] @ rest = b # rest'" by (cases "x @ [10, 10] @ rest") auto
  have "split_from cur ((a # x) @ [10, 10] @ rest) = split_from (cur @ [a]) (x @ [10, 10] @ rest)"
    using a r by simp
  also have "\<dots> = ((cur @ [a]) @ x) # split_from [] rest"
    using Cons.prems by (intro Cons.IH) simp
  finally show ?case by simp
qed

lemma split_join:
  assumes "\<forall>b\<in>set blocks. 10 \<notin> set b" "blocks \<noteq> []"
  shows "split_nn (join_nn blocks) = blocks"
proof -
  have "split_from [] (join_nn blocks) = blocks"
    using assms
  proof (induction blocks rule: join_nn.induct)
    case 1
    then show ?case by simp
  next
    case (2 x)
    then show ?case by (simp add: split_from_no_nl)
  next
    case (3 x y ys)
    then show ?case using split_from_block[of x "[]" "join_nn (y # ys)"] by simp
  qed
  then show ?thesis by (simp add: split_nn_def)
qed

section \<open>Text without white space\<close>

lemma trim_id:
  assumes "s = [] \<or> (\<not> is_ws (hd s) \<and> \<not> is_ws (last s))"
  shows "trim s = s"
proof (cases "s = []")
  case True
  then show ?thesis by (simp add: trim_def)
next
  case False
  then have 1: "dropWhile is_ws s = s" using assms by (cases s) auto
  have "rev s \<noteq> []" "\<not> is_ws (hd (rev s))" using False assms by (simp_all add: hd_rev)
  then have "dropWhile is_ws (rev s) = rev s" by (cases "rev s") auto
  then show ?thesis using 1 by (simp add: trim_def)
qed

lemma trim_no_ws:
  assumes "\<forall>c\<in>set s. \<not> is_ws c"
  shows "trim s = s"
proof (rule trim_id)
  show "s = [] \<or> (\<not> is_ws (hd s) \<and> \<not> is_ws (last s))"
    using assms by (cases "s = []") auto
qed

lemma lastIndexFrom_absent:
  assumes "x \<in> set pat" "x \<notin> set s"
  shows "lastIndexFrom s pat k = - 1"
proof -
  have no: "take (length pat) (drop j s) \<noteq> pat" for j
  proof
    assume "take (length pat) (drop j s) = pat"
    then have "set pat \<subseteq> set s"
      by (metis set_take_subset set_drop_subset subset_trans)
    then show False using assms by auto
  qed
  show ?thesis
  proof (induction k)
    case 0
    show ?case using no[of 0] by simp
  next
    case (Suc k)
    then show ?case using no[of "Suc k"] by simp
  qed
qed

lemma lastIndexOf_absent:
  assumes "x \<in> set pat" "x \<notin> set s"
  shows "lastIndexOf s pat pos = - 1"
  using lastIndexFrom_absent[OF assms] by (simp add: lastIndexOf_def)

lemma breakPoint_no_space:
  assumes "32 \<notin> set s" "0 \<le> cpp"
  shows "breakPoint cpp s = min (real (length s)) cpp"
proof -
  have "lastIndexOf s [46, 32] (min (real (length s)) cpp) = - 1"
    "lastIndexOf s [32] (min (real (length s)) cpp) = - 1"
    using assms(1) by (simp_all add: lastIndexOf_absent[of 32])
  then show ?thesis using assms(2) by (simp add: breakPoint_def Let_def)
qed

lemma split_step_hard:
  assumes "\<not> is_ws c" "0 < n" "real n > cpp" "nat \<lfloor>cpp\<rfloor> = k" "0 < k"
  shows "split_step cpp (pages, css, replicate n c) =
           (pages @ [chunk_page k c css], css + cpp, replicate (n - k) c)"
proof -
  have c32: "c \<noteq> 32" using assms(1) by (auto simp: is_ws_def)
  have cpp: "0 \<le> cpp" using assms(4,5) by linarith
  have bp: "breakPoint cpp (replicate n c) = cpp"
    using breakPoint_no_space[of "replicate n c" cpp] c32 cpp assms(3) by simp
  have kn: "k \<le> n" using assms(3,4) by linarith
  have t1: "trim (replicate k c) = replicate k c" using assms(1) by (intro trim_no_ws) simp
  have t2: "trim (replicate (n - k) c) = replicate (n - k) c"
    using assms(1) by (intro trim_no_ws) simp
  show ?thesis
    using kn assms(4,5) t1 t2
    by (simp add: split_step_def bp substring_to_def substring_from_def chunk_page_def min_def)
qed

lemma split_step_rest:
  assumes "\<not> is_ws c" "0 < n" "real n \<le> cpp"
  shows "split_step cpp (pages, css, replicate n c) =
           (pages @ [chunk_page n c css], css + real n, [])"
proof -
  have c32: "c \<noteq> 32" using assms(1) by (auto simp: is_ws_def)
  have cpp: "0 \<le> cpp" using assms(2,3) by linarith
  have bp: "breakPoint cpp (replicate n c) = real n"
    using breakPoint_no_space[of "replicate n c" cpp] c32 cpp assms(3) by simp
  have t1: "trim (replicate n c) = replicate n c" using assms(1) by (intro trim_no_ws) simp
  have t0: "trim [] = []" by (simp add: trim_def)
  show ?thesis
    using assms(2)
    by (simp add: split_step_def bp substring_to_def substring_from_def chunk_page_def t0 t1
        Let_def)
qed

lemma split_loop_step:
  "remaining \<noteq> [] \<Longrightarrow> split_step cpp (pages, css, remaining) = s'
     \<Longrightarrow> split_loop cpp (pages, css, remaining) = split_loop cpp s'"
  by (subst split_loop.simps) simp

lemma split_loop_done: "split_loop cpp (pages, css, []) = Some (pages, css, [])"
  by (subst split_loop.simps) simp

lemma not_ws_97: "\<not> is_ws 97" and not_ws_98: "\<not> is_ws 98"
  by (simp_all add: is_ws_def)

lemma floor_budget: "nat \<lfloor>3179 / 20 :: real\<rfloor> = 158"
  by simp

lemma unbroken_split:
  "split_loop (3179/20) ([], 0, replicate 1428 97) =
     Some (butlast unbroken_pages, 28731 / 20, [])"
proof -
  note h = split_step_hard[OF not_ws_97 _ _ floor_budget]
  have "split_loop (3179/20) ([], 0, replicate 1428 97)
      = split_loop (3179/20) ([chunk_page 158 97 0], 3179/20, replicate 1270 97)"
    by (rule split_loop_step) (simp_all add: h)
  also have "\<dots> = split_loop (3179/20)
      ([chunk_page 158 97 0, chunk_page 158 97 (3179/20)], 3179/10, replicate 1112 97)"
    by (rule split_loop_step) (simp_all add: h)
  also have "\<dots> = split_loop (3179/20)
      ([chunk_page 158 97 0, chunk_page 158 97 (3179/20), chunk_page 158 97 (3179/10)],
       9537/20, replicate 954 97)"
    by (rule split_loop_step) (simp_all add: h)
  also have "\<dots> = split_loop (3179/20)
      ([chunk_page 158 97 0, chunk_page 158 97 (3179/20), chunk_page 158 97 (3179/10),
        chunk_page 158 97 (9537/20)], 3179/5, replicate 796 97)"
    by (rule split_loop_step) (simp_all add: h)
  also have "\<dots> = split_loop (3179/20)
      ([chunk_page 158 97 0, chunk_page 158 97 (3179/20), chunk_page 158 97 (3179/10),
        chunk_page 158 97 (9537/20), chunk_page 158 97 (3179/5)], 3179/4, replicate 638 97)"
    by (rule split_loop_step) (simp_all add: h)
  also have "\<dots> = split_loop (3179/20)
      ([chunk_page 158 97 0, chunk_page 158 97 (3179/20), chunk_page 158 97 (3179/10),
        chunk_page 158 97 (9537/20), chunk_page 158 97 (3179/5), chunk_page 158 97 (3179/4)],
       9537/10, replicate 480 97)"
    by (rule split_loop_step) (simp_all add: h)
  also have "\<dots> = split_loop (3179/20)
      ([chunk_page 158 97 0, chunk_page 158 97 (3179/20), chunk_page 158 97 (3179/10),
        chunk_page 158 97 (9537/20), chunk_page 158 97 (3179/5), chunk_page 158 97 (3179/4),
        chunk_page 158 97 (9537/10)], 22253/20, replicate 322 97)"
    by (rule split_loop_step) (simp_all add: h)
  also have "\<dots> = split_loop (3179/20)
      ([chunk_page 158 97 0, chunk_page 158 97 (3179/20), chunk_page 158 97 (3179/10),
        chunk_page 158 97 (9537/20), chunk_page 158 97 (3179/5), chunk_page 158 97 (3179/4),
        chunk_page 158 97 (9537/10), chunk_page 158 97 (22253/20)], 6358/5, replicate 164 97)"
    by (rule split_loop_step) (simp_all add: h)
  also have "\<dots> = split_loop (3179/20)
      ([chunk_page 158 97 0, chunk_page 158 97 (3179/20), chunk_page 158 97 (3179/10),
        chunk_page 158 97 (9537/20), chunk_page 158 97 (3179/5), chunk_page 158 97 (3179/4),
        chunk_page 158 97 (9537/10), chunk_page 158 97 (22253/20), chunk_page 158 97 (6358/5)],
       28611/20, replicate 6 97)"
    by (rule split_loop_step) (simp_all add: h)
  also have "\<dots> = split_loop (3179/20) (butlast unbroken_pages, 28731/20, [])"
    by (rule split_loop_step) (simp_all add: split_step_rest[OF not_ws_97] unbroken_pages_def)
  finally show ?thesis by (simp add: split_loop_done)
qed

lemma not_title_replicate_98: "\<not> isTitleText (replicate n 98)"
  by (simp add: isTitleText_def cleaned_def upperCount_def is_letter_def is_upper_def)

lemma keep_chunk_page: "keep_page (chunk_page n c s) = (5 < n)"
  by (simp add: keep_page_def chunk_page_def)

lemma unbroken_paras:
  "buildParagraphs (split_nn (join_nn unbroken_blocks)) ([], 0) =
     ([\<lparr>para_text = replicate 1428 97, para_start = 0, para_length = 1428\<rparr>,
       \<lparr>para_text = replicate 20 98, para_start = 1430, para_length = 20\<rparr>], 1452)"
proof -
  have "split_nn (join_nn unbroken_blocks) = unbroken_blocks"
    by (rule split_join) (simp_all add: unbroken_blocks_def)
  moreover have "trim (replicate 1428 97) = replicate 1428 97"
    using not_ws_97 by (intro trim_no_ws) simp
  moreover have "trim (replicate 20 98) = replicate 20 98"
    using not_ws_98 by (intro trim_no_ws) simp
  ultimately show ?thesis by (simp add: unbroken_blocks_def)
qed

lemma unbroken_step1:
  "para_step (3179/20) init_accum
     \<lparr>para_text = replicate 1428 97, para_start = 0, para_length = 1428\<rparr> =
   Some \<lparr>acc_pages = butlast unbroken_pages, currentPageContent = [],
          currentPageOffsetStart = - 1, currentCharCount = 0\<rparr>"
  by (simp add: para_step_def init_accum_def set_start_def title_break_def overflow_break_def
      split_para_def unbroken_split)

lemma unbroken_step2:
  "para_step (3179/20)
     \<lparr>acc_pages = butlast unbroken_pages, currentPageContent = [],
        currentPageOffsetStart = - 1, currentCharCount = 0\<rparr>
     \<lparr>para_text = replicate 20 98, para_start = 1430, para_length = 20\<rparr> =
   Some \<lparr>acc_pages = butlast unbroken_pages, currentPageContent = [replicate 20 98],
          currentPageOffsetStart = 1430, currentCharCount = 70\<rparr>"
  by (simp add: para_step_def set_start_def title_break_def overflow_break_def append_para_def)

lemma unbroken_paginate: "paginate (3179/20) unbroken_blocks = Some unbroken_pages"
proof -
  have "raw_pages (3179/20) unbroken_blocks = Some unbroken_pages"
    unfolding raw_pages_def unbroken_paras
    by (simp add: unbroken_step1 unbroken_step2 last_page_def) (simp add: unbroken_pages_def)
  moreover have "filter keep_page unbroken_pages = unbroken_pages"
    by (simp add: unbroken_pages_def keep_chunk_page) (simp add: keep_page_def)
  ultimately show ?thesis by (simp add: paginate_def)
qed

text \<open>
  C4 at a failing input. On a phone-sized container at font size 32 the budget is 158.95.
  A block of 1428 characters without white space is cut into chunks of 158 characters
  while the split start advances by 158.95 per chunk, so the last chunk is given the start
  1430.55; the next block begins at offset 1430, and its page follows with the smaller
  start.
\<close>

theorem start_offsets_decrease:
  "paginateContent phone unbroken_reader =
     Some (unbroken_reader\<lparr>paginatedContent := unbroken_pages, totalScreenPages := 11,
                            currentScreenPage := 1\<rparr>)
   \<and> start (unbroken_pages ! 9) = 28611 / 20
   \<and> start (unbroken_pages ! 10) = 1430
   \<and> \<not> start (unbroken_pages ! 9) < start (unbroken_pages ! 10)"
proof -
  have b: "charsPerPage phone unbroken_reader = 3179/20"
    by (rule phone_budget) (simp_all add: unbroken_reader_def init_reader_def)
  have l: "length unbroken_pages = 11" by (simp add: unbroken_pages_def)
  have p: "paginate (3179/20) (extractedText unbroken_reader) = Some unbroken_pages"
    by (simp add: unbroken_reader_def unbroken_paginate)
  have cur: "currentScreenPage unbroken_reader = 1"
    by (simp add: unbroken_reader_def init_reader_def)
  have "paginateContent phone unbroken_reader =
     Some (unbroken_reader\<lparr>paginatedContent := unbroken_pages, totalScreenPages := 11,
                            currentScreenPage := 1\<rparr>)"
    by (simp add: paginateContent_def b p l cur Let_def)
  moreover have "start (unbroken_pages ! 9) = 28611 / 20" "start (unbroken_pages ! 10) = 1430"
    by (simp_all add: unbroken_pages_def chunk_page_def)
  ultimately show ?thesis by simp
qed

section \<open>A sentence end at the budget index\<close>

lemma lastIndexFrom_hit:
  "take (length pat) (drop k s) = pat \<Longrightarrow> lastIndexFrom s pat k = int k"
  by (cases k) simp_all

lemma trim_leading_ws: "is_ws c \<Longrightarrow> trim (c # s) = trim s"
  by (simp add: trim_def)

lemma sentence_breakPoint: "breakPoint (3179/20) sentence_text = 159"
proof -
  have "lastIndexFrom sentence_text [46, 32] 158 = int 158"
    by (rule lastIndexFrom_hit) (simp add: sentence_text_def)
  then have "lastIndexOf sentence_text [46, 32] (3179/20) = 158"
    by (simp add: lastIndexOf_def sentence_text_def)
  then show ?thesis by (simp add: breakPoint_def sentence_text_def)
qed

lemma sentence_step:
  "split_step (3179/20) ([], 0, sentence_text) =
     ([\<lparr>content = [replicate 158 97 @ [46]], start = 0, end_off = 159\<rparr>], 159, replicate 60 98)"
proof -
  have "trim (replicate 158 97 @ [46]) = replicate 158 97 @ [46]"
    by (rule trim_id) (simp add: is_ws_def)
  moreover have "trim (32 # replicate 60 98) = replicate 60 98"
    using trim_no_ws[of "replicate 60 98"] not_ws_98 by (simp add: trim_leading_ws is_ws_def)
  moreover have "substring_to sentence_text 159 = replicate 158 97 @ [46]"
    by (simp add: substring_to_def sentence_text_def)
  moreover have "substring_from sentence_text 159 = 32 # replicate 60 98"
    by (simp add: substring_from_def sentence_text_def)
  ultimately show ?thesis by (simp add: split_step_def sentence_breakPoint)
qed

lemma sentence_split:
  "split_loop (3179/20) ([], 0, sentence_text) = Some (sentence_pages, 219, [])"
proof -
  have "split_loop (3179/20) ([], 0, sentence_text) =
        split_loop (3179/20)
          ([\<lparr>content = [replicate 158 97 @ [46]], start = 0, end_off = 159\<rparr>], 159,
           replicate 60 98)"
    by (rule split_loop_step) (simp_all add: sentence_step, simp add: sentence_text_def)
  also have "\<dots> = split_loop (3179/20) (sentence_pages, 219, [])"
    by (rule split_loop_step)
       (simp_all add: split_step_rest[OF not_ws_98] sentence_pages_def chunk_page_def)
  finally show ?thesis by (simp add: split_loop_done)
qed

lemma sentence_paras:
  "buildParagraphs (split_nn (join_nn [sentence_text])) ([], 0) =
     ([\<lparr>para_text = sentence_text, para_start = 0, para_length = 220\<rparr>], 222)"
proof -
  have "split_nn (join_nn [sentence_text]) = [sentence_text]"
    by (rule split_join) (simp_all add: sentence_text_def)
  moreover have "trim sentence_text = sentence_text"
    by (rule trim_id) (simp add: sentence_text_def is_ws_def)
  moreover have "length sentence_text = 220" "sentence_text \<noteq> []"
    by (simp_all add: sentence_text_def)
  ultimately show ?thesis by simp
qed

lemma sentence_step1:
  "para_step (3179/20) init_accum
     \<lparr>para_text = sentence_text, para_start = 0, para_length = 220\<rparr> =
   Some \<lparr>acc_pages = sentence_pages, currentPageContent = [],
          currentPageOffsetStart = - 1, currentCharCount = 0\<rparr>"
  by (simp add: para_step_def init_accum_def set_start_def title_break_def overflow_break_def
      split_para_def sentence_split)

lemma sentence_paginate: "paginate (3179/20) [sentence_text] = Some sentence_pages"
proof -
  have "raw_pages (3179/20) [sentence_text] = Some sentence_pages"
    unfolding raw_pages_def sentence_paras
    by (simp add: sentence_step1 last_page_def)
  moreover have "filter keep_page sentence_pages = sentence_pages"
    by (simp add: sentence_pages_def keep_page_def)
  ultimately show ?thesis by (simp add: paginate_def)
qed

text \<open>
  C3 at a failing input. With the budget 158.95, a paragraph of 220 characters whose
  only sentence end \<open>". "\<close> begins at index 158 is cut after the period: the first chunk
  has 159 characters, more than the budget.
\<close>

theorem split_chunk_exceeds_budget:
  "charsPerPage phone sentence_reader = 3179 / 20
   \<and> paginateContent phone sentence_reader =
       Some (sentence_reader\<lparr>paginatedContent := sentence_pages, totalScreenPages := 2,
                              currentScreenPage := 1\<rparr>)
   \<and> content (sentence_pages ! 0) = [replicate 158 97 @ [46]]
   \<and> real (length (replicate 158 97 @ [46 :: nat])) > charsPerPage phone sentence_reader"
proof -
  have b: "charsPerPage phone sentence_reader = 3179/20"
    by (rule phone_budget) (simp_all add: sentence_reader_def init_reader_def)
  have l: "length sentence_pages = 2" by (simp add: sentence_pages_def)
  have p: "paginate (3179/20) (extractedText sentence_reader) = Some sentence_pages"
    by (simp add: sentence_reader_def sentence_paginate)
  have cur: "currentScreenPage sentence_reader = 1"
    by (simp add: sentence_reader_def init_reader_def)
  have "paginateContent phone sentence_reader =
       Some (sentence_reader\<lparr>paginatedContent := sentence_pages, totalScreenPages := 2,
                              currentScreenPage := 1\<rparr>)"
    by (simp add: paginateContent_def b p l cur Let_def)
  moreover have "content (sentence_pages ! 0) = [replicate 158 97 @ [46]]"
    by (simp add: sentence_pages_def)
  ultimately show ?thesis using b by simp
qed

section \<open>Collapsed text\<close>

lemma tight_Nil: "tight []"
  by (simp add: tight_def)

lemma tight_sublist:
  assumes "sublist t s" "tight s"
  shows "tight t"
proof -
  have "set t \<subseteq> set s" using assms(1) by (rule set_mono_sublist)
  moreover have "\<not> sublist [32, 32] t"
    using assms by (meson sublist_order.order_trans tight_def)
  ultimately show ?thesis using assms(2) by (auto simp: tight_def)
qed

lemma tight_Cons:
  "tight (c # cs) = (tight cs \<and> (is_ws c \<longrightarrow> c = 32 \<and> (cs = [] \<or> \<not> is_ws (hd cs))))"
proof (cases cs)
  case Nil
  then show ?thesis by (simp add: tight_def sublist_Cons_right)
next
  case (Cons d ds)
  have ws: "is_ws 32" by (simp add: is_ws_def)
  have p: "prefix [32, 32] (c # cs) = (c = 32 \<and> d = 32)" by (simp add: Cons)
  have h: "hd cs = d" "d \<in> set cs" by (simp_all add: Cons)
  show ?thesis unfolding tight_def sublist_Cons_right p using ws h by auto
qed

lemma tight_collapse_id: "tight s \<Longrightarrow> collapse_ws s = s"
proof (induction s)
  case Nil
  show ?case by simp
next
  case (Cons c cs)
  then have t: "tight cs" and c: "is_ws c \<longrightarrow> c = 32 \<and> (cs = [] \<or> \<not> is_ws (hd cs))"
    by (simp_all add: tight_Cons)
  show ?case
  proof (cases "is_ws c")
    case True
    then have "dropWhile is_ws cs = cs" using c by (simp add: dropWhile_eq_self_iff)
    then show ?thesis using True c Cons.IH[OF t] by simp
  next
    case False
    then show ?thesis using Cons.IH[OF t] by simp
  qed
qed

lemma length_collapse_ws_le: "length (collapse_ws s) \<le> length s"
proof (induction s rule: collapse_ws.induct)
  case 1
  show ?case by simp
next
  case (2 c cs)
  have "length (dropWhile is_ws cs) \<le> length cs" by (rule length_dropWhile_le)
  then show ?case using 2 by (cases "is_ws c") auto
qed

lemma dropWhile_same_length:
  assumes "length xs \<le> length (dropWhile P xs)"
  shows "dropWhile P xs = xs"
proof -
  have "length (takeWhile P xs) + length (dropWhile P xs) = length xs"
    by (metis length_append takeWhile_dropWhile_id)
  then have "length (takeWhile P xs) = 0" using assms by linarith
  then have "takeWhile P xs = []" by simp
  then show ?thesis by (metis append_Nil takeWhile_dropWhile_id)
qed

lemma collapse_id_tight: "collapse_ws s = s \<Longrightarrow> tight s"
proof (induction s rule: collapse_ws.induct)
  case 1
  show ?case by (rule tight_Nil)
next
  case (2 c cs)
  show ?case
  proof (cases "is_ws c")
    case True
    then have c: "c = 32" and eq: "collapse_ws (dropWhile is_ws cs) = cs"
      using "2.prems" by simp_all
    have "length cs \<le> length (dropWhile is_ws cs)"
      using length_collapse_ws_le[of "dropWhile is_ws cs"] eq by simp
    then have d: "dropWhile is_ws cs = cs" by (rule dropWhile_same_length)
    then have "tight cs" using "2.IH"(1)[OF True] eq by simp
    moreover have "cs = [] \<or> \<not> is_ws (hd cs)" using d by (simp add: dropWhile_eq_self_iff)
    ultimately show ?thesis using c by (simp add: tight_Cons)
  next
    case False
    then have "collapse_ws cs = cs" using "2.prems" by simp
    then have "tight cs" using "2.IH"(2)[OF False] by simp
    then show ?thesis using False by (simp add: tight_Cons)
  qed
qed

lemma tight_no_nl: "tight s \<Longrightarrow> 10 \<notin> set s"
  by (auto simp: tight_def is_ws_def)

lemma trim_sublist: "sublist (trim s) s"
proof -
  have "sublist (trim s) (dropWhile is_ws s)"
    by (simp add: trim_def sublist_rev_left)
  moreover have "sublist (dropWhile is_ws s) s" by simp
  ultimately show ?thesis by (rule sublist_order.order_trans)
qed

lemma last_dropWhile: "dropWhile P xs \<noteq> [] \<Longrightarrow> last (dropWhile P xs) = last xs"
  by (metis last_appendR takeWhile_dropWhile_id)

lemma trim_ends:
  assumes "trim s \<noteq> []"
  shows "\<not> is_ws (hd (trim s)) \<and> \<not> is_ws (last (trim s))"
proof -
  let ?u = "dropWhile is_ws s"
  let ?x = "dropWhile is_ws (rev ?u)"
  have x: "?x \<noteq> []" using assms unfolding trim_def by (metis rev_is_Nil_conv)
  have u: "?u \<noteq> []"
  proof
    assume "?u = []"
    then have "?x = []" by (simp del: dropWhile_eq_Nil_conv)
    then show False using x by blast
  qed
  have "last (trim s) = hd ?x" using x by (simp add: trim_def last_rev)
  then have l: "\<not> is_ws (last (trim s))" using hd_dropWhile[OF x] by simp
  have "hd (trim s) = last ?x" using x by (simp add: trim_def hd_rev)
  also have "\<dots> = last (rev ?u)" using x by (rule last_dropWhile)
  also have "\<dots> = hd ?u" using u by (simp add: last_rev)
  finally have "\<not> is_ws (hd (trim s))" using hd_dropWhile[OF u] by simp
  then show ?thesis using l by simp
qed

lemma good_trim:
  assumes "tight s" "trim s \<noteq> []"
  shows "good (trim s)"
  using tight_sublist[OF trim_sublist assms(1)] trim_ends[OF assms(2)] assms(2)
  by (simp add: good_def)

lemma tight_append:
  assumes "tight t" "tight u" "t = [] \<or> \<not> is_ws (last t)"
  shows "tight (t @ u)"
proof -
  have ws: "is_ws 32" by (simp add: is_ws_def)
  have "\<not> sublist [32, 32] (t @ u)"
  proof
    assume "sublist [32, 32] (t @ u)"
    then consider "sublist [32, 32] t" | "sublist [32, 32] u"
      | xs1 xs2 where "[32, 32] = xs1 @ xs2" "suffix xs1 t" "prefix xs2 u"
      unfolding sublist_append by blast
    then show False
    proof cases
      case 1
      then show ?thesis using assms(1) by (simp add: tight_def)
    next
      case 2
      then show ?thesis using assms(2) by (simp add: tight_def)
    next
      case 3
      have "xs1 = [] \<and> xs2 = [32, 32] \<or> xs1 = [32] \<and> xs2 = [32]
            \<or> xs1 = [32, 32] \<and> xs2 = []"
        using 3(1) by (cases xs1; cases "tl xs1") auto
      then consider "xs1 = []" "xs2 = [32, 32]" | "xs1 = [32]" "xs2 = [32]"
        | "xs1 = [32, 32]" "xs2 = []"
        by blast
      then show ?thesis
      proof cases
        case 1
        then have "sublist [32, 32] u" using 3(3) by auto
        then show ?thesis using assms(2) by (simp add: tight_def)
      next
        case 2
        then have "suffix [32] t" using 3(2) by simp
        then obtain t' where "t = t' @ [32]" by (auto simp: suffix_def)
        then show ?thesis using assms(3) ws by simp
      next
        case 3
        then have "sublist [32, 32] t" using \<open>suffix xs1 t\<close> by auto
        then show ?thesis using assms(1) by (simp add: tight_def)
      qed
    qed
  qed
  then show ?thesis using assms(1,2) by (auto simp: tight_def)
qed

lemma tight_concat: "\<forall>t\<in>set ts. good t \<Longrightarrow> tight (concat ts)"
proof (induction ts)
  case Nil
  show ?case by (simp add: tight_Nil)
next
  case (Cons t ts)
  then have "tight t" "\<not> is_ws (last t)" "tight (concat ts)" by (simp_all add: good_def)
  then show ?case by (simp add: tight_append)
qed

lemma good_page_keep:
  assumes "\<forall>t\<in>set (content p). good t"
  shows "spec_keep_page p = keep_page p"
  using tight_collapse_id[OF tight_concat[OF assms]]
  by (simp add: spec_keep_page_def keep_page_def)

section \<open>Collapsed blocks give good content\<close>

lemma pieces_tight:
  assumes "\<forall>b\<in>set blocks. tight b"
  shows "\<forall>x\<in>set (split_nn (join_nn blocks)). tight x"
proof (cases "blocks = []")
  case True
  then show ?thesis by (simp add: split_nn_def tight_Nil)
next
  case False
  have "split_nn (join_nn blocks) = blocks"
    using assms False by (intro split_join) (auto dest: tight_no_nl)
  then show ?thesis using assms by simp
qed

lemma buildParagraphs_good:
  assumes "\<forall>x\<in>set raw. tight x" "\<forall>p\<in>set (fst acc). good (para_text p)"
  shows "\<forall>p\<in>set (fst (buildParagraphs raw acc)). good (para_text p)"
  using assms
proof (induction raw arbitrary: acc)
  case Nil
  then show ?case by simp
next
  case (Cons x raw)
  obtain paragraphs searchIndex where acc: "acc = (paragraphs, searchIndex)" by (cases acc) auto
  show ?case
  proof (cases "trim x = []")
    case True
    have "\<forall>p\<in>set (fst (paragraphs, searchIndex + length x + 2)). good (para_text p)"
      using Cons.prems(2) acc by simp
    from Cons.IH[OF _ this] Cons.prems(1) True acc show ?thesis by (simp add: Let_def)
  next
    case False
    have "good (trim x)" using Cons.prems(1) False by (simp add: good_trim)
    then have "\<forall>p\<in>set (fst (paragraphs @ [\<lparr>para_text = trim x, para_start = searchIndex,
                  para_length = length (trim x)\<rparr>], searchIndex + length x + 2)).
                good (para_text p)"
      using Cons.prems(2) acc by auto
    from Cons.IH[OF _ this] Cons.prems(1) False acc show ?thesis by (simp add: Let_def)
  qed
qed

lemma flush_good_inv: "good_inv a \<Longrightarrow> good_inv (flush a st)"
  by (simp add: good_inv_def flush_def)

lemma set_start_good_inv: "good_inv a \<Longrightarrow> good_inv (set_start a p)"
  by (simp add: good_inv_def set_start_def)

lemma title_break_good_inv: "good_inv a \<Longrightarrow> good_inv (title_break a p)"
  using flush_good_inv[of a "real (para_start p)"]
  by (simp add: title_break_def good_inv_def)

lemma overflow_break_good_inv: "good_inv a \<Longrightarrow> good_inv (overflow_break cpp a p)"
  using flush_good_inv[of a "real (para_start p)"]
  by (simp add: overflow_break_def good_inv_def)

lemma append_para_good_inv: "good_inv a \<Longrightarrow> good (para_text p) \<Longrightarrow> good_inv (append_para a p)"
  by (simp add: good_inv_def append_para_def)

lemma split_step_good:
  assumes "(\<forall>pg\<in>set (fst s). \<forall>t\<in>set (content pg). good t) \<and> tight (snd (snd s))"
  shows "(\<forall>pg\<in>set (fst (split_step cpp s)). \<forall>t\<in>set (content pg). good t)
         \<and> tight (snd (snd (split_step cpp s)))"
proof -
  obtain pages css remaining where s: "s = (pages, css, remaining)" by (cases s) auto
  let ?bp = "breakPoint cpp remaining"
  have t: "tight remaining" using assms s by simp
  have "tight (substring_to remaining ?bp)"
    using tight_sublist[OF sublist_take t] by (simp add: substring_to_def)
  then have chunk: "trim (substring_to remaining ?bp) \<noteq> [] \<longrightarrow>
                      good (trim (substring_to remaining ?bp))"
    by (simp add: good_trim)
  have "tight (substring_from remaining ?bp)"
    using tight_sublist[OF sublist_drop t] by (simp add: substring_from_def)
  then have rest: "tight (trim (substring_from remaining ?bp))"
    using tight_sublist[OF trim_sublist] by blast
  show ?thesis using assms chunk rest by (simp add: s split_step_def Let_def)
qed

lemma split_para_good_inv:
  assumes "1 \<le> cpp" "good_inv a" "good (para_text p)"
  shows "\<exists>a'. split_para cpp a p = Some a' \<and> good_inv a'"
proof -
  let ?a = "if currentPageContent a \<noteq> [] then flush a (real (para_start p)) else a"
  let ?I = "\<lambda>s. (\<forall>pg\<in>set (fst s). \<forall>t\<in>set (content pg). good t) \<and> tight (snd (snd s))"
  have inv: "good_inv ?a" using assms(2) flush_good_inv by simp
  then have "?I (acc_pages ?a, real (para_start p), para_text p)"
    using assms(3) by (simp add: good_inv_def good_def)
  from split_loop_rule[where I = ?I, OF assms(1) split_step_good this]
  obtain s' where s': "split_loop cpp (acc_pages ?a, real (para_start p), para_text p) = Some s'"
    "\<forall>pg\<in>set (fst s'). \<forall>t\<in>set (content pg). good t" by blast
  have "split_para cpp a p = Some (?a\<lparr>acc_pages := fst s', currentPageOffsetStart := -1\<rparr>)"
    using s'(1) by (simp add: split_para_def Let_def)
  moreover have "good_inv (?a\<lparr>acc_pages := fst s', currentPageOffsetStart := -1\<rparr>)"
    using inv s'(2) by (simp add: good_inv_def)
  ultimately show ?thesis by blast
qed

lemma para_step_good_inv:
  assumes "1 \<le> cpp" "good_inv a" "good (para_text p)"
  shows "\<exists>a'. para_step cpp a p = Some a' \<and> good_inv a'"
proof -
  let ?a3 = "overflow_break cpp (title_break (set_start a p) p) p"
  have inv: "good_inv ?a3"
    using assms(2) by (intro overflow_break_good_inv title_break_good_inv set_start_good_inv)
  then have "good_inv (append_para ?a3 p)" using assms(3) by (rule append_para_good_inv)
  then show ?thesis
    using split_para_good_inv[OF assms(1) inv assms(3)] by (simp add: para_step_def Let_def)
qed

lemma para_loop_good_inv:
  assumes "1 \<le> cpp" "good_inv a" "\<forall>p\<in>set ps. good (para_text p)"
  shows "\<exists>a'. para_loop cpp a ps = Some a' \<and> good_inv a'"
  using assms(2,3)
proof (induction ps arbitrary: a)
  case Nil
  then show ?case by simp
next
  case (Cons p ps)
  obtain a1 where a1: "para_step cpp a p = Some a1" "good_inv a1"
    using para_step_good_inv[OF assms(1) Cons.prems(1)] Cons.prems(2) by auto
  from Cons.IH[OF a1(2)] Cons.prems(2) a1(1) show ?case by simp
qed

lemma raw_pages_good:
  assumes "1 \<le> cpp" "\<forall>b\<in>set blocks. tight b"
  shows "\<exists>pages. raw_pages cpp blocks = Some pages
            \<and> (\<forall>pg\<in>set pages. \<forall>t\<in>set (content pg). good t)"
proof -
  obtain paragraphs searchIndex
    where b: "buildParagraphs (split_nn (join_nn blocks)) ([], 0) = (paragraphs, searchIndex)"
    by (cases "buildParagraphs (split_nn (join_nn blocks)) ([], 0)") auto
  have "\<forall>p\<in>set (fst (buildParagraphs (split_nn (join_nn blocks)) ([], 0))). good (para_text p)"
    using pieces_tight[OF assms(2)] by (intro buildParagraphs_good) simp_all
  then have ps: "\<forall>p\<in>set paragraphs. good (para_text p)" using b by simp
  have "good_inv init_accum" by (simp add: good_inv_def init_accum_def)
  then obtain a where a: "para_loop cpp init_accum paragraphs = Some a" "good_inv a"
    using para_loop_good_inv[OF assms(1) _ ps] by blast
  have "\<forall>pg\<in>set (last_page a searchIndex). \<forall>t\<in>set (content pg). good t"
    using a(2) by (simp add: last_page_def good_inv_def)
  then show ?thesis using a(1) b by (simp add: raw_pages_def)
qed

text \<open>
  C7. When every extracted block is whitespace-collapsed, as the extraction leaves it,
  \<open>paginateContent\<close> returns, the stored list is the list of pushed pages without those
  whose joined content after whitespace collapse has 5 characters or fewer, and every
  stored page has joined content (collapsed or not: the two agree) of more than 5
  characters.
\<close>

theorem degenerate_pages_dropped:
  assumes "\<forall>b\<in>set (extractedText r). collapse_ws b = b"
  shows "\<exists>r' raw. paginateContent c r = Some r'
           \<and> raw_pages (charsPerPage c r) (extractedText r) = Some raw
           \<and> paginatedContent r' = filter spec_keep_page raw
           \<and> (\<forall>p\<in>set (paginatedContent r').
                  5 < length (collapse_ws (concat (content p)))
                  \<and> 5 < length (concat (content p)))"
proof -
  have "1 \<le> charsPerPage c r" using charsPerPage_ge_100[of c r] by linarith
  moreover have "\<forall>b\<in>set (extractedText r). tight b" using assms collapse_id_tight by blast
  ultimately obtain raw where raw: "raw_pages (charsPerPage c r) (extractedText r) = Some raw"
    "\<forall>pg\<in>set raw. \<forall>t\<in>set (content pg). good t"
    using raw_pages_good by blast
  have same: "\<forall>pg\<in>set raw. spec_keep_page pg = keep_page pg"
    using raw(2) good_page_keep by blast
  then have f: "filter keep_page raw = filter spec_keep_page raw"
    by (intro filter_cong) simp_all
  have "\<forall>p\<in>set (filter spec_keep_page raw).
          5 < length (collapse_ws (concat (content p))) \<and> 5 < length (concat (content p))"
    using same by (auto simp: spec_keep_page_def keep_page_def)
  then show ?thesis
    using raw(1) f by (simp add: paginateContent_def paginate_def Let_def)
qed

section \<open>The extraction leaves collapsed blocks\<close>

lemma hd_collapse_ws: "s \<noteq> [] \<Longrightarrow> \<not> is_ws (hd s) \<Longrightarrow> hd (collapse_ws s) = hd s"
  by (cases s) auto

lemma collapse_ws_Nil_iff: "collapse_ws s = [] \<longleftrightarrow> s = []"
  by (cases s) auto

lemma tight_collapse_ws: "tight (collapse_ws s)"
proof (induction s rule: collapse_ws.induct)
  case 1
  show ?case by (simp add: tight_Nil)
next
  case (2 c cs)
  show ?case
  proof (cases "is_ws c")
    case True
    let ?d = "dropWhile is_ws cs"
    have "collapse_ws ?d = [] \<or> \<not> is_ws (hd (collapse_ws ?d))"
    proof (cases "?d = []")
      case True
      then show ?thesis by (simp del: dropWhile_eq_Nil_conv)
    next
      case False
      then show ?thesis using hd_dropWhile[OF False] hd_collapse_ws[OF False] by simp
    qed
    then show ?thesis using True "2.IH"(1)[OF True] by (simp add: tight_Cons)
  next
    case False
    then show ?thesis using "2.IH"(2)[OF False] by (simp add: tight_Cons)
  qed
qed

lemma replace_nl_id: "10 \<notin> set s \<Longrightarrow> replace_nl s = s"
  by (induction s) auto

lemma cleanPageText_collapsed: "collapse_ws (cleanPageText pageText) = cleanPageText pageText"
proof -
  have t: "tight (collapse_ws pageText)" by (rule tight_collapse_ws)
  then have "replace_nl (collapse_ws pageText) = collapse_ws pageText"
    by (intro replace_nl_id tight_no_nl)
  then have "tight (cleanPageText pageText)"
    using tight_sublist[OF trim_sublist t] by (simp add: cleanPageText_def)
  then show ?thesis by (rule tight_collapse_id)
qed

section \<open>The short example\<close>

lemma short_titles: "\<not> isTitleText (str ''Intro'')"
  by (simp add: str_def isTitleText_def cleaned_def upperCount_def is_letter_def is_upper_def)

lemma short_paras:
  "buildParagraphs (split_nn (join_nn short_blocks)) ([], 0) =
     ([\<lparr>para_text = str ''Intro'', para_start = 0, para_length = 5\<rparr>,
       \<lparr>para_text = str ''CHAPTER ONE'', para_start = 7, para_length = 11\<rparr>], 20)"
proof -
  have "split_nn (join_nn short_blocks) = short_blocks"
    by (rule split_join) (simp_all add: short_blocks_def str_def)
  moreover have "trim (str ''Intro'') = str ''Intro''"
    by (simp add: str_def trim_def is_ws_def)
  moreover have "str ''Intro'' \<noteq> []" by (simp add: str_def)
  ultimately show ?thesis by (simp add: short_blocks_def ex_trim ex_nonempty length_str)
qed

lemma short_step1:
  "para_step (3179/20) init_accum \<lparr>para_text = str ''Intro'', para_start = 0, para_length = 5\<rparr>
   = Some \<lparr>acc_pages = [], currentPageContent = [str ''Intro''],
           currentPageOffsetStart = 0, currentCharCount = 55\<rparr>"
  by (simp add: init_accum_def para_step_def set_start_def title_break_def overflow_break_def
      append_para_def short_titles)

lemma short_step2:
  "para_step (3179/20)
     \<lparr>acc_pages = [], currentPageContent = [str ''Intro''],
        currentPageOffsetStart = 0, currentCharCount = 55\<rparr>
     \<lparr>para_text = str ''CHAPTER ONE'', para_start = 7, para_length = 11\<rparr>
   = Some \<lparr>acc_pages = [\<lparr>content = [str ''Intro''], start = 0, end_off = 6\<rparr>],
           currentPageContent = [str ''CHAPTER ONE''], currentPageOffsetStart = 7,
           currentCharCount = 61\<rparr>"
  by (simp add: para_step_def set_start_def title_break_def overflow_break_def append_para_def
      flush_def ex_titles)

lemma short_raw_pages:
  "raw_pages (3179/20) short_blocks =
     Some [\<lparr>content = [str ''Intro''], start = 0, end_off = 6\<rparr>,
           \<lparr>content = [str ''CHAPTER ONE''], start = 7, end_off = 20\<rparr>]"
  unfolding raw_pages_def short_paras
  by (simp add: short_step1 short_step2 last_page_def)

lemma short_paginate:
  "paginate (3179/20) short_blocks =
     Some [\<lparr>content = [str ''CHAPTER ONE''], start = 7, end_off = 20\<rparr>]"
  by (simp add: paginate_def short_raw_pages keep_page_def length_str)

theorem degenerate_pages_dropped_witness:
  "(\<exists>r' raw. paginateContent phone short_reader = Some r'
       \<and> raw_pages (charsPerPage phone short_reader) (extractedText short_reader) = Some raw
       \<and> paginatedContent r' = filter spec_keep_page raw
       \<and> (\<forall>p\<in>set (paginatedContent r').
              5 < length (collapse_ws (concat (content p)))
              \<and> 5 < length (concat (content p))))
   \<and> raw_pages (3179/20) short_blocks =
        Some [\<lparr>content = [str ''Intro''], start = 0, end_off = 6\<rparr>,
              \<lparr>content = [str ''CHAPTER ONE''], start = 7, end_off = 20\<rparr>]
   \<and> paginate (3179/20) short_blocks =
        Some [\<lparr>content = [str ''CHAPTER ONE''], start = 7, end_off = 20\<rparr>]"
proof -
  have h: "\<forall>b\<in>set (extractedText short_reader). collapse_ws b = b"
    by (simp add: short_reader_def short_blocks_def str_def is_ws_def)
  show ?thesis
    using degenerate_pages_dropped[OF h, of phone] short_raw_pages short_paginate by blast
qed

section \<open>The floor at work\<close>








end
